theory Spec2Isabelle
  imports Main "HOL-Library.AList"
begin

section \<open>The event dispatcher of dispatcher.go\<close>

text \<open>
  The dispatcher fans an event out to one goroutine per registered listener. The model is an
  interleaving semantics: the state holds the fields of the \<open>Dispatcher\<close> struct, the pool of
  goroutines started by \<open>Dispatch\<close> (each with the program point it stands at) and the frame
  of the \<open>Wait\<close> call that holds the mutex. A schedule is a list of actions; an action that
  cannot proceed in a state (a receive without sender, a locked mutex) yields \<open>Blocked\<close>, a
  Go panic yields \<open>Panic\<close> with its message. Memory is sequentially consistent:
  the unsynchronised accesses of the source are interleaved at the granularity of the actions.
\<close>

subsection \<open>Values\<close>

text \<open>A channel is identified by the number \<open>make(chan int)\<close> gave it.\<close>

type_synonym chan = nat

text \<open>
  Listener bodies are supplied by the caller. The model keeps of a body what the dispatcher
  can observe: whether it sends on the quit channel before it returns (the protocol of the
  comment on \<open>ListenerFunc\<close>) or returns without sending.
\<close>

datatype code = Signals | Silent

text \<open>The payload of an event is opaque to the dispatcher.\<close>

record Event =
  Data :: nat
  Name :: string

text \<open>
  A value of type \<open>interface{}\<close>, as the slices of \<open>listeners\<close> store it: the nil
  interface, a value whose dynamic type implements \<open>Listener\<close> (with the body of its
  \<open>Execute\<close>), a value of dynamic type \<open>ListenerFunc\<close> (a function, or the nil
  function), or a value of any other dynamic type.
\<close>

datatype iface = NilV | ListenerV code | ListenerFuncV "code option" | OtherV nat

text \<open>
  A parameter of interface type \<open>Listener\<close> is nil (\<open>None\<close>) or holds an implementation;
  converting it to \<open>interface{}\<close> keeps a nil interface nil. A parameter of type
  \<open>ListenerFunc\<close> always has that dynamic type, also when the function is nil.
\<close>

fun of_Listener :: "code option \<Rightarrow> iface" where
  "of_Listener None = NilV"
| "of_Listener (Some c) = ListenerV c"

definition of_ListenerFunc :: "code option \<Rightarrow> iface" where
  "of_ListenerFunc f = ListenerFuncV f"

subsection \<open>Go maps\<close>

text \<open>
  A Go map is an association list with one entry per key; \<open>range\<close> visits it in list order
  (Go leaves the order open). Reading a missing key of a map of slices gives the nil slice.
\<close>

definition at :: "('k \<times> 'v list) list \<Rightarrow> 'k \<Rightarrow> 'v list" where
  "at m k = (case map_of m k of None \<Rightarrow> [] | Some v \<Rightarrow> v)"

subsection \<open>State\<close>

text \<open>The program points of \<open>executeListener\<close>.\<close>

datatype pc =
    PauseCheck    \<comment> \<open>about to evaluate \<open>d.paused\<close>\<close>
  | RecvP         \<comment> \<open>in \<open><-p\<close>\<close>
  | TypeSwitch    \<comment> \<open>about to switch on the type of \<open>l\<close> and call the body\<close>
  | SendQ         \<comment> \<open>inside the body, in \<open>q <- 1\<close>\<close>
  | DeleteP       \<comment> \<open>the body has returned; about to \<open>delete(d.pchans[name], p)\<close>\<close>
  | Exited

text \<open>A goroutine \<open>go d.executeListener(name, l, e, p, q)\<close>: its arguments and program point.\<close>

record task =
  t_name :: string
  t_l :: iface
  t_e :: Event
  t_p :: chan
  t_q :: chan
  t_pc :: pc

text \<open>
  The struct. \<open>mu\<close> is true while the mutex is held; an inner map of \<open>pchans\<close> is the list
  of its keys (every stored value is \<open>true\<close>); a nil channel in \<open>qchans\<close> is \<open>None\<close>.
\<close>

record Dispatcher =
  mu :: bool
  listeners :: "(string \<times> iface list) list"
  pchans :: "(string \<times> chan list) list"
  qchans :: "(string \<times> chan option list) list"
  paused :: bool

text \<open>
  The dispatcher together with the runtime around it: the next channel \<open>make\<close> returns,
  the goroutines started so far in start order, and the frame \<open>(event, i, n)\<close> of the
  \<open>Wait\<close> call inside its loop (\<open>n\<close> is the length \<open>range\<close> evaluated once).
\<close>

record state = Dispatcher +
  fresh :: chan
  tasks :: "task list"
  waiting :: "(string \<times> nat \<times> nat) option"

datatype stop = Blocked | Panic string

definition NewDispatcher :: state where
  "NewDispatcher =
     \<lparr> mu = False, listeners = [], pchans = [], qchans = [], paused = False,
       fresh = 0, tasks = [], waiting = None \<rparr>"

subsection \<open>Registration\<close>

definition Listener :: "string \<Rightarrow> code option \<Rightarrow> state \<Rightarrow> state" where
  "Listener event l d =
     d\<lparr>listeners := AList.update event (at (listeners d) event @ [of_Listener l]) (listeners d)\<rparr>"

definition ListenerFunc :: "string \<Rightarrow> code option \<Rightarrow> state \<Rightarrow> state" where
  "ListenerFunc event l d =
     d\<lparr>listeners := AList.update event (at (listeners d) event @ [of_ListenerFunc l]) (listeners d)\<rparr>"

subsection \<open>Dispatch\<close>

text \<open>
  One iteration of the loop of \<open>Dispatch\<close>: \<open>spawn\<close> is its body on the inner map
  \<open>m = d.pchans[name]\<close>; writing to \<open>d.pchans[name][p]\<close> panics in Go when that map is
  nil.
\<close>

definition spawn :: "string \<Rightarrow> Event \<Rightarrow> iface \<Rightarrow> chan list \<Rightarrow> state \<Rightarrow> state" where
  "spawn name e l m d =
     (let p = fresh d;
          q = Suc p
      in d\<lparr> pchans := AList.update name (List.insert p m) (pchans d),
            qchans := AList.update name (at (qchans d) name @ [Some q]) (qchans d),
            fresh := Suc q,
            tasks := tasks d @
              [\<lparr> t_name = name, t_l = l, t_e = e, t_p = p, t_q = q, t_pc = PauseCheck \<rparr>] \<rparr>)"

definition launch :: "string \<Rightarrow> Event \<Rightarrow> iface \<Rightarrow> state \<Rightarrow> stop + state" where
  "launch name e l d =
     (case map_of (pchans d) name of
        None \<Rightarrow> Inl (Panic ''assignment to entry in nil map'')
      | Some m \<Rightarrow> Inr (spawn name e l m d))"

fun dispatch_loop :: "string \<Rightarrow> Event \<Rightarrow> iface list \<Rightarrow> state \<Rightarrow> stop + state" where
  "dispatch_loop name e [] d = Inr d"
| "dispatch_loop name e (l # ls) d =
     (case launch name e l d of
        Inl x \<Rightarrow> Inl x
      | Inr d' \<Rightarrow> dispatch_loop name e ls d')"

text \<open>
  \<open>Dispatch\<close> runs under the mutex from its first statement to its return, so it is one
  action, enabled when the mutex is free.
\<close>

definition Dispatch :: "string \<Rightarrow> Event \<Rightarrow> state \<Rightarrow> stop + state" where
  "Dispatch name e d =
     (if mu d then Inl Blocked
      else
        let d1 = (if map_of (pchans d) name = None
                  then d\<lparr>pchans := AList.update name [] (pchans d)\<rparr> else d)
        in dispatch_loop name e (at (listeners d1) name) d1)"

subsection \<open>executeListener\<close>

definition set_pc :: "nat \<Rightarrow> pc \<Rightarrow> state \<Rightarrow> state" where
  "set_pc i c d = d\<lparr>tasks := (tasks d)[i := (tasks d ! i)\<lparr>t_pc := c\<rparr>]\<rparr>"

text \<open>Calling a body: it runs up to its send on the quit channel, or to its return.\<close>

fun call :: "code \<Rightarrow> pc" where
  "call Signals = SendQ"
| "call Silent = DeleteP"

text \<open>The type switch and the call of the matching case.\<close>

fun invoke :: "iface \<Rightarrow> stop + pc" where
  "invoke (ListenerV c) = Inr (call c)"
| "invoke (ListenerFuncV (Some c)) = Inr (call c)"
| "invoke (ListenerFuncV None) = Inl (Panic ''invalid memory address or nil pointer dereference'')"
| "invoke _ = Inl (Panic ''Invalid listener'')"

text \<open>
  One step of goroutine \<open>i\<close>. The two receives and sends on unbuffered channels are steps
  of the partner (\<open>Resume\<close>, \<open>Wait\<close>); the goroutine itself is blocked there.
\<close>

definition executeListener :: "nat \<Rightarrow> state \<Rightarrow> stop + state" where
  "executeListener i d =
     (if length (tasks d) \<le> i then Inl Blocked
      else
        let t = tasks d ! i in
        case t_pc t of
          PauseCheck \<Rightarrow> Inr (set_pc i (if paused d then RecvP else TypeSwitch) d)
        | RecvP \<Rightarrow> Inl Blocked
        | TypeSwitch \<Rightarrow>
            (case invoke (t_l t) of
               Inl x \<Rightarrow> Inl x
             | Inr c \<Rightarrow> Inr (set_pc i c d))
        | SendQ \<Rightarrow> Inl Blocked
        | DeleteP \<Rightarrow>
            Inr (set_pc i Exited
                  (d\<lparr>pchans := AList.map_entry (t_name t) (removeAll (t_p t)) (pchans d)\<rparr>))
        | Exited \<Rightarrow> Inl Blocked)"

subsection \<open>Pause and Resume\<close>

definition Pause :: "state \<Rightarrow> state" where
  "Pause d = d\<lparr>paused := True\<rparr>"

text \<open>
  \<open>select { case c <- 1: default: }\<close>: the send happens when a goroutine is receiving on
  \<open>c\<close>, which then goes on; otherwise the default case runs and nothing changes.
\<close>

fun deliver :: "chan \<Rightarrow> task list \<Rightarrow> task list" where
  "deliver c [] = []"
| "deliver c (t # ts) =
     (if t_pc t = RecvP \<and> t_p t = c then t\<lparr>t_pc := TypeSwitch\<rparr> # ts else t # deliver c ts)"

definition try_send :: "chan \<Rightarrow> state \<Rightarrow> state" where
  "try_send c d = d\<lparr>tasks := deliver c (tasks d)\<rparr>"

fun resume_inner :: "chan list \<Rightarrow> state \<Rightarrow> state" where
  "resume_inner [] d = d"
| "resume_inner (c # cs) d = resume_inner cs (try_send c d)"

fun resume_loop :: "(string \<times> chan list) list \<Rightarrow> state \<Rightarrow> state" where
  "resume_loop [] d = d"
| "resume_loop ((name, arr) # rest) d = resume_loop rest (resume_inner arr d)"

text \<open>\<open>Resume\<close> takes no lock; the model runs it as one action.\<close>

definition Resume :: "state \<Rightarrow> state" where
  "Resume d =
     (if \<not> paused d then d
      else (resume_loop (pchans d) d)\<lparr>paused := False\<rparr>)"

subsection \<open>Wait\<close>

definition sending :: "chan \<Rightarrow> task list \<Rightarrow> bool" where
  "sending c ts = list_ex (\<lambda>t. t_pc t = SendQ \<and> t_q t = c) ts"

text \<open>\<open><-c\<close> completes the send of the goroutine that stands in \<open>q <- 1\<close> on \<open>c\<close>.\<close>

fun receive :: "chan \<Rightarrow> task list \<Rightarrow> task list" where
  "receive c [] = []"
| "receive c (t # ts) =
     (if t_pc t = SendQ \<and> t_q t = c then t\<lparr>t_pc := DeleteP\<rparr> # ts else t # receive c ts)"

text \<open>Entering \<open>Wait\<close>: the lock, and the evaluation of the range expression.\<close>

definition Wait_enter :: "string \<Rightarrow> state \<Rightarrow> stop + state" where
  "Wait_enter event d =
     (if mu d then Inl Blocked
      else Inr (d\<lparr>mu := True, waiting := Some (event, 0, length (at (qchans d) event))\<rparr>))"

text \<open>
  One iteration of the loop of \<open>Wait\<close>, or, after the last one, the deferred unlock and the
  return. The mutex keeps \<open>Dispatch\<close> from appending while the loop runs, so the bound \<open>n\<close>
  stays the length of the sequence and the element read is the one \<open>range\<close> yields.
\<close>

definition Wait_iter :: "state \<Rightarrow> stop + state" where
  "Wait_iter d =
     (case waiting d of
        None \<Rightarrow> Inl Blocked
      | Some (event, i, n) \<Rightarrow>
          if i < n then
            (case at (qchans d) event ! i of
               None \<Rightarrow> Inr (d\<lparr>waiting := Some (event, Suc i, n)\<rparr>)
             | Some c \<Rightarrow>
                 if sending c (tasks d)
                 then Inr (d\<lparr> tasks := receive c (tasks d),
                              qchans := AList.update event ((at (qchans d) event)[i := None]) (qchans d),
                              waiting := Some (event, Suc i, n) \<rparr>)
                 else Inl Blocked)
          else Inr (d\<lparr>mu := False, waiting := None\<rparr>))"

subsection \<open>Schedules\<close>

datatype action =
    CallListener string "code option"
  | CallListenerFunc string "code option"
  | CallDispatch string Event
  | CallPause
  | CallResume
  | WaitEnter string
  | WaitIter
  | Step nat

fun step :: "action \<Rightarrow> state \<Rightarrow> stop + state" where
  "step (CallListener event l) d = Inr (Listener event l d)"
| "step (CallListenerFunc event l) d = Inr (ListenerFunc event l d)"
| "step (CallDispatch name e) d = Dispatch name e d"
| "step CallPause d = Inr (Pause d)"
| "step CallResume d = Inr (Resume d)"
| "step (WaitEnter event) d = Wait_enter event d"
| "step WaitIter d = Wait_iter d"
| "step (Step i) d = executeListener i d"

fun run :: "action list \<Rightarrow> state \<Rightarrow> stop + state" where
  "run [] d = Inr d"
| "run (a # as) d =
     (case step a d of
        Inl x \<Rightarrow> Inl x
      | Inr d' \<Rightarrow> run as d')"

subsection \<open>Notions used in the statements\<close>

text \<open>The arguments a goroutine was started with; its program point is the rest of it.\<close>

definition args :: "task \<Rightarrow> string \<times> iface \<times> Event \<times> chan \<times> chan" where
  "args t = (t_name t, t_l t, t_e t, t_p t, t_q t)"

text \<open>The goroutines a dispatch over the listeners \<open>ls\<close> starts when \<open>make\<close> is at \<open>c\<close>.\<close>

fun new_tasks :: "string \<Rightarrow> Event \<Rightarrow> chan \<Rightarrow> iface list \<Rightarrow> task list" where
  "new_tasks name e c [] = []"
| "new_tasks name e c (l # ls) =
     \<lparr> t_name = name, t_l = l, t_e = e, t_p = c, t_q = Suc c, t_pc = PauseCheck \<rparr>
       # new_tasks name e (Suc (Suc c)) ls"

text \<open>The channels of a completion-gate sequence that are not nil.\<close>

fun somes :: "'a option list \<Rightarrow> 'a list" where
  "somes [] = []"
| "somes (None # xs) = somes xs"
| "somes (Some x # xs) = x # somes xs"

text \<open>A goroutine receiving on one of the pause-gates \<open>C\<close> gets its signal and goes on.\<close>

definition release :: "chan set \<Rightarrow> task \<Rightarrow> task" where
  "release C t = (if t_pc t = RecvP \<and> t_p t \<in> C then t\<lparr>t_pc := TypeSwitch\<rparr> else t)"

text \<open>A goroutine sending on one of the completion-gates \<open>C\<close> has its signal taken and goes on.\<close>

definition complete :: "chan set \<Rightarrow> task \<Rightarrow> task" where
  "complete C t = (if t_pc t = SendQ \<and> t_q t \<in> C then t\<lparr>t_pc := DeleteP\<rparr> else t)"


text \<open>The two dynamic types the type switch of \<open>executeListener\<close> has a case for.\<close>

fun recognized :: "iface \<Rightarrow> bool" where
  "recognized (ListenerV c) = True"
| "recognized (ListenerFuncV f) = True"
| "recognized _ = False"

definition ev0 :: Event where
  "ev0 = \<lparr> Data = 0, Name = ''a'' \<rparr>"

subsection \<open>Invariants of the reachable states\<close>

text \<open>Channels in use were made before: they lie below \<open>fresh\<close>, and no two goroutines share one.\<close>

definition inv_tasks :: "state \<Rightarrow> bool" where
  "inv_tasks d \<longleftrightarrow>
     (\<forall>c\<in>set (map t_p (tasks d)). c < fresh d) \<and> (\<forall>c\<in>set (map t_q (tasks d)). c < fresh d) \<and>
     distinct (map t_p (tasks d)) \<and> distinct (map t_q (tasks d))"

definition inv_pchans :: "state \<Rightarrow> bool" where
  "inv_pchans d \<longleftrightarrow> (\<forall>k. \<forall>c\<in>set (at (pchans d) k). c < fresh d)"

definition inv_qchans :: "state \<Rightarrow> bool" where
  "inv_qchans d \<longleftrightarrow>
     (\<forall>k. (\<forall>c\<in>set (somes (at (qchans d) k)). c < fresh d) \<and> distinct (somes (at (qchans d) k)))"

text \<open>One completion-gate entry per goroutine of the event.\<close>

definition inv_length :: "state \<Rightarrow> bool" where
  "inv_length d \<longleftrightarrow> (\<forall>k. length (at (qchans d) k) = count_list (map t_name (tasks d)) k)"

text \<open>A \<open>Wait\<close> inside its loop holds the mutex, and its bound is the length of the sequence.\<close>

definition inv_waiting :: "state \<Rightarrow> bool" where
  "inv_waiting d \<longleftrightarrow>
     (case waiting d of
        None \<Rightarrow> True
      | Some (event, i, n) \<Rightarrow> mu d \<and> i \<le> n \<and> n = length (at (qchans d) event))"

text \<open>Every stored listener value, registered or handed to a goroutine, is recognised.\<close>

definition inv_recognized :: "state \<Rightarrow> bool" where
  "inv_recognized d \<longleftrightarrow>
     (\<forall>k. \<forall>l\<in>set (at (listeners d) k). recognized l) \<and>
     (\<forall>l\<in>set (map t_l (tasks d)). recognized l)"

text \<open>The state a schedule leads to from a new dispatcher.\<close>

definition after :: "action list \<Rightarrow> state" where
  "after acts = (case run acts NewDispatcher of Inl x \<Rightarrow> NewDispatcher | Inr d \<Rightarrow> d)"

section \<open>Basic facts\<close>

subsection \<open>Map reads\<close>

lemma at_update: "at (AList.update k v m) k' = (if k' = k then v else at m k')"
  by (simp add: at_def update_conv')

lemma at_remove:
  "at (AList.map_entry k (removeAll c) m) k' = (if k' = k then removeAll c (at m k) else at m k')"
  by (simp add: at_def map_of_map_entry split: option.splits)

lemma at_Some: "map_of m k = Some v \<Longrightarrow> at m k = v"
  by (simp add: at_def)

lemma at_ensure: "map_of m k = None \<Longrightarrow> at (AList.update k [] m) k' = at m k'"
  by (simp add: at_def update_conv')

subsection \<open>Arguments of goroutines\<close>

lemma args_pc [simp]: "args (t\<lparr>t_pc := c\<rparr>) = args t"
  by (simp add: args_def)

lemma args_fields:
  assumes "map args ts' = map args ts"
  shows "map t_name ts' = map t_name ts" and "map t_l ts' = map t_l ts"
    and "map t_p ts' = map t_p ts" and "map t_q ts' = map t_q ts"
proof -
  have n: "t_name = (\<lambda>(n, l, e, p, q). n) \<circ> args" and l: "t_l = (\<lambda>(n, l, e, p, q). l) \<circ> args"
    and p: "t_p = (\<lambda>(n, l, e, p, q). p) \<circ> args" and q: "t_q = (\<lambda>(n, l, e, p, q). q) \<circ> args"
    by (auto simp: args_def fun_eq_iff)
  show "map t_name ts' = map t_name ts"
    by (subst (1 2) n) (simp only: map_map [symmetric] assms)
  show "map t_l ts' = map t_l ts"
    by (subst (1 2) l) (simp only: map_map [symmetric] assms)
  show "map t_p ts' = map t_p ts"
    by (subst (1 2) p) (simp only: map_map [symmetric] assms)
  show "map t_q ts' = map t_q ts"
    by (subst (1 2) q) (simp only: map_map [symmetric] assms)
qed

lemma args_list_update [simp]:
  "map args (ts[i := (ts ! i)\<lparr>t_pc := c\<rparr>]) = map args ts"
  by (cases "i < length ts") (simp_all add: map_update list_update_same_conv list_update_beyond)

subsection \<open>Deliveries on channels\<close>

lemma length_deliver [simp]: "length (deliver c ts) = length ts"
  by (induction ts) auto

lemma length_receive [simp]: "length (receive c ts) = length ts"
  by (induction ts) auto

lemma args_deliver [simp]: "map args (deliver c ts) = map args ts"
  by (induction ts) auto

lemma args_receive [simp]: "map args (receive c ts) = map args ts"
  by (induction ts) auto

lemma deliver_started:
  "i < length ts \<Longrightarrow> t_pc (ts ! i) \<noteq> PauseCheck \<Longrightarrow> t_pc (deliver c ts ! i) \<noteq> PauseCheck"
  by (induction ts arbitrary: i) (auto simp: nth_Cons split: nat.splits)

lemma receive_started:
  "i < length ts \<Longrightarrow> t_pc (ts ! i) \<noteq> PauseCheck \<Longrightarrow> t_pc (receive c ts ! i) \<noteq> PauseCheck"
  by (induction ts arbitrary: i) (auto simp: nth_Cons split: nat.splits)



subsection \<open>The loop of Resume\<close>

lemma resume_inner_frame:
  "Dispatcher.truncate (resume_inner cs d) = Dispatcher.truncate d \<and>
   fresh (resume_inner cs d) = fresh d \<and> waiting (resume_inner cs d) = waiting d \<and>
   map args (tasks (resume_inner cs d)) = map args (tasks d)"
  by (induction cs arbitrary: d) (auto simp: try_send_def Dispatcher.truncate_def)

lemma resume_loop_frame:
  "Dispatcher.truncate (resume_loop m d) = Dispatcher.truncate d \<and>
   fresh (resume_loop m d) = fresh d \<and> waiting (resume_loop m d) = waiting d \<and>
   map args (tasks (resume_loop m d)) = map args (tasks d)"
  by (induction m arbitrary: d) (auto simp: resume_inner_frame)

lemma truncate_fields:
  assumes "Dispatcher.truncate d' = Dispatcher.truncate (d::state)"
  shows "mu d' = mu d" and "listeners d' = listeners d" and "pchans d' = pchans d"
    and "qchans d' = qchans d" and "paused d' = paused d"
  using assms by (auto simp: Dispatcher.truncate_def)

lemmas exec =
  after_def NewDispatcher_def Listener_def ListenerFunc_def of_ListenerFunc_def at_def
  spawn_def launch_def Dispatch_def set_pc_def executeListener_def Pause_def try_send_def
  Resume_def sending_def Wait_enter_def Wait_iter_def ev0_def Let_def

section \<open>Resume while not paused\<close>

text \<open>
  C8. Calling \<open>Resume\<close> when the dispatcher is not paused is a no-op: the action returns
  without error and the state it returns is the state it was called in, so no goroutine
  received a signal and no listener map, pause-gate set, completion-gate sequence or flag
  changed.
\<close>

theorem Resume_unpaused_noop:
  "\<not> paused d \<Longrightarrow> Resume d = d \<and> step CallResume d = Inr d"
  by (simp add: Resume_def)

theorem Resume_unpaused_noop_witness:
  "\<not> paused (after [CallListenerFunc ''a'' (Some Signals), CallDispatch ''a'' ev0, Step 0]) \<and>
   Resume (after [CallListenerFunc ''a'' (Some Signals), CallDispatch ''a'' ev0, Step 0]) =
     after [CallListenerFunc ''a'' (Some Signals), CallDispatch ''a'' ev0, Step 0] \<and>
   step CallResume (after [CallListenerFunc ''a'' (Some Signals), CallDispatch ''a'' ev0, Step 0]) =
     Inr (after [CallListenerFunc ''a'' (Some Signals), CallDispatch ''a'' ev0, Step 0])"
proof -
  have h: "\<not> paused (after [CallListenerFunc ''a'' (Some Signals), CallDispatch ''a'' ev0, Step 0])"
    by (simp add: exec)
  show ?thesis
    using h Resume_unpaused_noop [OF h] by simp
qed

section \<open>Effects of the operations\<close>

subsection \<open>Dispatch\<close>

lemma new_tasks_l: "map t_l (new_tasks name e c ls) = ls"
  by (induction ls arbitrary: c) auto

lemma new_tasks_length [simp]: "length (new_tasks name e c ls) = length ls"
  by (induction ls arbitrary: c) auto

lemma new_tasks_fields:
  "t \<in> set (new_tasks name e c ls) \<Longrightarrow>
     t_name t = name \<and> t_e t = e \<and> t_pc t = PauseCheck \<and> t_q t = Suc (t_p t) \<and>
     c \<le> t_p t \<and> t_p t < c + 2 * length ls \<and> t_q t < c + 2 * length ls"
  by (induction ls arbitrary: c) fastforce+

lemma new_tasks_distinct_p: "distinct (map t_p (new_tasks name e c ls))"
proof (induction ls arbitrary: c)
  case (Cons l ls)
  have "\<forall>t\<in>set (new_tasks name e (Suc (Suc c)) ls). t_p t \<noteq> c"
    using new_tasks_fields[of _ name e "Suc (Suc c)" ls] by fastforce
  with Cons show ?case by auto
qed simp

lemma new_tasks_distinct_q: "distinct (map t_q (new_tasks name e c ls))"
proof (induction ls arbitrary: c)
  case (Cons l ls)
  have "\<forall>t\<in>set (new_tasks name e (Suc (Suc c)) ls). t_q t \<noteq> Suc c"
    using new_tasks_fields[of _ name e "Suc (Suc c)" ls] by fastforce
  with Cons show ?case by auto
qed simp

lemma spawn_fields:
  "tasks (spawn name e l m d) = tasks d @ new_tasks name e (fresh d) [l]"
  "fresh (spawn name e l m d) = Suc (Suc (fresh d))"
  "pchans (spawn name e l m d) = AList.update name (List.insert (fresh d) m) (pchans d)"
  "qchans (spawn name e l m d) =
     AList.update name (at (qchans d) name @ [Some (Suc (fresh d))]) (qchans d)"
  "listeners (spawn name e l m d) = listeners d"
  "paused (spawn name e l m d) = paused d"
  "mu (spawn name e l m d) = mu d"
  "waiting (spawn name e l m d) = waiting d"
  by (simp_all add: spawn_def Let_def)

lemma dispatch_loop_Cons:
  "map_of (pchans d) name = Some m \<Longrightarrow>
   dispatch_loop name e (l # ls) d = dispatch_loop name e ls (spawn name e l m d)"
  by (simp add: launch_def)

lemma dispatch_loop_effect:
  "map_of (pchans d) name \<noteq> None \<Longrightarrow>
   \<exists>d'. dispatch_loop name e ls d = Inr d' \<and>
        tasks d' = tasks d @ new_tasks name e (fresh d) ls \<and>
        fresh d' = fresh d + 2 * length ls \<and>
        listeners d' = listeners d \<and> paused d' = paused d \<and> mu d' = mu d \<and>
        waiting d' = waiting d \<and>
        (\<forall>k. at (qchans d') k =
           (if k = name then at (qchans d) name @ map (Some \<circ> t_q) (new_tasks name e (fresh d) ls)
            else at (qchans d) k)) \<and>
        (\<forall>k. set (at (pchans d') k) =
           (if k = name then set (at (pchans d) name) \<union> t_p ` set (new_tasks name e (fresh d) ls)
            else set (at (pchans d) k))) \<and>
        ((\<forall>c\<in>set (at (pchans d) name). c < fresh d) \<longrightarrow>
           length (at (pchans d') name) = length (at (pchans d) name) + length ls)"
proof (induction ls arbitrary: d)
  case Nil
  then show ?case by simp
next
  case (Cons l ls)
  then obtain m where m: "map_of (pchans d) name = Some m" by auto
  let ?d1 = "spawn name e l m d"
  have 1: "map_of (pchans ?d1) name \<noteq> None" by (simp add: spawn_fields update_conv')
  from Cons.IH[OF 1] obtain d' where d':
    "dispatch_loop name e ls ?d1 = Inr d'"
    "tasks d' = tasks ?d1 @ new_tasks name e (fresh ?d1) ls"
    "fresh d' = fresh ?d1 + 2 * length ls"
    "listeners d' = listeners ?d1" "paused d' = paused ?d1" "mu d' = mu ?d1"
    "waiting d' = waiting ?d1"
    "\<forall>k. at (qchans d') k =
           (if k = name then at (qchans ?d1) name @ map (Some \<circ> t_q) (new_tasks name e (fresh ?d1) ls)
            else at (qchans ?d1) k)"
    "\<forall>k. set (at (pchans d') k) =
           (if k = name then set (at (pchans ?d1) name) \<union> t_p ` set (new_tasks name e (fresh ?d1) ls)
            else set (at (pchans ?d1) k))"
    "(\<forall>c\<in>set (at (pchans ?d1) name). c < fresh ?d1) \<longrightarrow>
           length (at (pchans d') name) = length (at (pchans ?d1) name) + length ls"
    by blast
  have am: "at (pchans d) name = m" using m by (rule at_Some)
  have a: "dispatch_loop name e (l # ls) d = Inr d'"
    by (subst dispatch_loop_Cons[OF m]) (rule d'(1))
  have b: "tasks d' = tasks d @ new_tasks name e (fresh d) (l # ls)"
    using d'(2) by (simp add: spawn_fields)
  have c: "fresh d' = fresh d + 2 * length (l # ls)"
    using d'(3) by (simp add: spawn_fields)
  have f: "listeners d' = listeners d" "paused d' = paused d" "mu d' = mu d" "waiting d' = waiting d"
    using d'(4-7) by (simp_all add: spawn_fields)
  have q: "\<forall>k. at (qchans d') k =
           (if k = name then at (qchans d) name @ map (Some \<circ> t_q) (new_tasks name e (fresh d) (l # ls))
            else at (qchans d) k)"
    using d'(8) by (simp add: spawn_fields at_update)
  have p: "\<forall>k. set (at (pchans d') k) =
           (if k = name then set (at (pchans d) name) \<union> t_p ` set (new_tasks name e (fresh d) (l # ls))
            else set (at (pchans d) k))"
    using d'(9) am by (auto simp: spawn_fields at_update)
  have n: "(\<forall>c\<in>set (at (pchans d) name). c < fresh d) \<longrightarrow>
           length (at (pchans d') name) = length (at (pchans d) name) + length (l # ls)"
  proof
    assume h: "\<forall>c\<in>set (at (pchans d) name). c < fresh d"
    then have "\<forall>c\<in>set (at (pchans ?d1) name). c < fresh ?d1"
      using am by (auto simp: spawn_fields at_update less_Suc_eq)
    moreover have "fresh d \<notin> set m" using h am by auto
    ultimately show "length (at (pchans d') name) = length (at (pchans d) name) + length (l # ls)"
      using d'(10) am by (simp add: spawn_fields at_update)
  qed
  from a b c f q p n show ?case by blast
qed

lemma Dispatch_effect:
  assumes "\<not> mu d"
  shows "\<exists>d'. Dispatch name e d = Inr d' \<and>
        tasks d' = tasks d @ new_tasks name e (fresh d) (at (listeners d) name) \<and>
        fresh d' = fresh d + 2 * length (at (listeners d) name) \<and>
        listeners d' = listeners d \<and> paused d' = paused d \<and> mu d' = mu d \<and>
        waiting d' = waiting d \<and>
        (\<forall>k. at (qchans d') k =
           (if k = name
            then at (qchans d) name @
                 map (Some \<circ> t_q) (new_tasks name e (fresh d) (at (listeners d) name))
            else at (qchans d) k)) \<and>
        (\<forall>k. set (at (pchans d') k) =
           (if k = name
            then set (at (pchans d) name) \<union>
                 t_p ` set (new_tasks name e (fresh d) (at (listeners d) name))
            else set (at (pchans d) k))) \<and>
        ((\<forall>c\<in>set (at (pchans d) name). c < fresh d) \<longrightarrow>
           length (at (pchans d') name) =
             length (at (pchans d) name) + length (at (listeners d) name))"
proof (cases "map_of (pchans d) name = None")
  case True
  let ?d1 = "d\<lparr>pchans := AList.update name [] (pchans d)\<rparr>"
  have 1: "map_of (pchans ?d1) name \<noteq> None" by (simp add: update_conv')
  have 2: "Dispatch name e d = dispatch_loop name e (at (listeners d) name) ?d1"
    using assms True by (simp add: Dispatch_def)
  have 3: "\<And>k. at (pchans ?d1) k = at (pchans d) k"
    using True by (simp add: at_ensure)
  show ?thesis
    using dispatch_loop_effect[OF 1, of e "at (listeners d) name"] 2 3 by (simp cong: if_cong)
next
  case False
  have 2: "Dispatch name e d = dispatch_loop name e (at (listeners d) name) d"
    using assms False by (auto simp: Dispatch_def)
  show ?thesis
    using dispatch_loop_effect[OF False, of e "at (listeners d) name"] 2 by simp
qed

lemma Dispatch_Inr_unlocked: "Dispatch name e d = Inr d' \<Longrightarrow> \<not> mu d"
  by (auto simp: Dispatch_def split: if_splits)

subsection \<open>executeListener\<close>

lemma invoke_started: "invoke l = Inr c \<Longrightarrow> c \<noteq> PauseCheck"
  by (induction l rule: invoke.induct) (auto elim: call.elims)

lemma executeListener_effect:
  assumes "executeListener i d = Inr d'"
  shows "i < length (tasks d)"
    and "\<exists>c. c \<noteq> PauseCheck \<and> tasks d' = (tasks d)[i := (tasks d ! i)\<lparr>t_pc := c\<rparr>]"
    and "fresh d' = fresh d" and "qchans d' = qchans d" and "listeners d' = listeners d"
    and "paused d' = paused d" and "mu d' = mu d" and "waiting d' = waiting d"
    and "set (at (pchans d') k) \<subseteq> set (at (pchans d) k)"
proof -
  show i: "i < length (tasks d)"
    using assms by (auto simp: executeListener_def split: if_splits)
  show "\<exists>c. c \<noteq> PauseCheck \<and> tasks d' = (tasks d)[i := (tasks d ! i)\<lparr>t_pc := c\<rparr>]"
    using assms i
    by (cases "t_pc (tasks d ! i)")
       (auto simp: executeListener_def set_pc_def Let_def split: sum.splits
             dest!: invoke_started)
  show "fresh d' = fresh d" "qchans d' = qchans d" "listeners d' = listeners d"
    "paused d' = paused d" "mu d' = mu d" "waiting d' = waiting d"
    using assms i
    by (cases "t_pc (tasks d ! i)";
        auto simp: executeListener_def set_pc_def Let_def split: sum.splits)+
  show "set (at (pchans d') k) \<subseteq> set (at (pchans d) k)"
    using assms i
    by (cases "t_pc (tasks d ! i)")
       (auto simp: executeListener_def set_pc_def Let_def at_remove split: sum.splits if_splits)
qed

subsection \<open>Resume\<close>

lemma Resume_effect:
  "mu (Resume d) = mu d" "listeners (Resume d) = listeners d" "pchans (Resume d) = pchans d"
  "qchans (Resume d) = qchans d" "fresh (Resume d) = fresh d" "waiting (Resume d) = waiting d"
  "map args (tasks (Resume d)) = map args (tasks d)"
  using resume_loop_frame[of "pchans d" d]
  by (auto simp: Resume_def dest: truncate_fields)

lemma length_tasks_Resume [simp]: "length (tasks (Resume d)) = length (tasks d)"
  using Resume_effect(7)[of d] by (metis length_map)

subsection \<open>Wait\<close>

lemma nth_None_update: "xs ! i = None \<Longrightarrow> xs = xs[i := None]"
  by (metis list_update_id)

lemma Wait_enter_effect:
  assumes "Wait_enter event d = Inr d'"
  shows "\<not> mu d" and "d' = d\<lparr>mu := True, waiting := Some (event, 0, length (at (qchans d) event))\<rparr>"
  using assms by (auto simp: Wait_enter_def split: if_splits)

lemma Wait_iter_effect:
  assumes "Wait_iter d = Inr d'"
  shows "\<exists>event i n. waiting d = Some (event, i, n) \<and>
           (if i < n
            then waiting d' = Some (event, Suc i, n) \<and> mu d' = mu d \<and>
                 (\<forall>k. at (qchans d') k =
                    (if k = event
                     then (at (qchans d) event)[i := None] else at (qchans d) k)) \<and>
                 (tasks d' = tasks d \<or> (\<exists>c. tasks d' = receive c (tasks d)))
            else d' = d\<lparr>mu := False, waiting := None\<rparr>)"
    and "pchans d' = pchans d" and "fresh d' = fresh d" and "listeners d' = listeners d"
    and "paused d' = paused d" and "map args (tasks d') = map args (tasks d)"
proof -
  from assms obtain event i n where w: "waiting d = Some (event, i, n)"
    by (auto simp: Wait_iter_def split: option.splits)
  show "\<exists>event i n. waiting d = Some (event, i, n) \<and>
           (if i < n
            then waiting d' = Some (event, Suc i, n) \<and> mu d' = mu d \<and>
                 (\<forall>k. at (qchans d') k =
                    (if k = event
                     then (at (qchans d) event)[i := None] else at (qchans d) k)) \<and>
                 (tasks d' = tasks d \<or> (\<exists>c. tasks d' = receive c (tasks d)))
            else d' = d\<lparr>mu := False, waiting := None\<rparr>)"
    using assms w
    by (auto simp: Wait_iter_def at_update split: option.splits if_splits
             intro: nth_None_update)
  show "pchans d' = pchans d" "fresh d' = fresh d" "listeners d' = listeners d"
    "paused d' = paused d" "map args (tasks d') = map args (tasks d)"
    using assms w by (auto simp: Wait_iter_def split: option.splits if_splits)
qed

lemma Wait_iter_cases:
  assumes "Wait_iter d = Inr d'"
  obtains (iter) event i n where "waiting d = Some (event, i, n)" and "i < n"
      and "waiting d' = Some (event, Suc i, n)" and "mu d' = mu d"
      and "\<And>k. at (qchans d') k =
             (if k = event then (at (qchans d) event)[i := None] else at (qchans d) k)"
      and "tasks d' = tasks d \<or> (\<exists>c. tasks d' = receive c (tasks d))"
    | (return) event i n where "waiting d = Some (event, i, n)" and "\<not> i < n"
      and "d' = d\<lparr>mu := False, waiting := None\<rparr>"
proof -
  from Wait_iter_effect(1)[OF assms] obtain event i n where
    w: "waiting d = Some (event, i, n)" and
    e: "if i < n
            then waiting d' = Some (event, Suc i, n) \<and> mu d' = mu d \<and>
                 (\<forall>k. at (qchans d') k =
                    (if k = event
                     then (at (qchans d) event)[i := None] else at (qchans d) k)) \<and>
                 (tasks d' = tasks d \<or> (\<exists>c. tasks d' = receive c (tasks d)))
            else d' = d\<lparr>mu := False, waiting := None\<rparr>"
    by blast
  show thesis
  proof (cases "i < n")
    case True
    with e w show thesis by (intro iter[of event i n]) simp_all
  next
    case False
    with e w show thesis by (intro return[of event i n]) simp_all
  qed
qed

section \<open>Schedules\<close>

lemma run_invariant:
  assumes "run acts d = Inr d'" and "P d"
    and "\<And>a x y. P x \<Longrightarrow> step a x = Inr y \<Longrightarrow> P y"
  shows "P d'"
  using assms(1,2)
proof (induction acts arbitrary: d)
  case Nil
  then show ?case by simp
next
  case (Cons a acts)
  then obtain x where x: "step a d = Inr x" "run acts x = Inr d'"
    by (auto split: sum.splits)
  from assms(3)[OF Cons.prems(2) x(1)] Cons.IH[OF x(2)] show ?case by simp
qed

lemma run_append:
  "run (as @ bs) d = (case run as d of Inl x \<Rightarrow> Inl x | Inr d' \<Rightarrow> run bs d')"
  by (induction as arbitrary: d) (auto split: sum.splits)

subsection \<open>The goroutine pool only grows\<close>

lemma step_tasks_prefix:
  assumes "step a d = Inr d'"
  shows "length (tasks d) \<le> length (tasks d') \<and>
         map args (take (length (tasks d)) (tasks d')) = map args (tasks d)"
proof (cases a)
  case (CallDispatch name e)
  with assms have "\<not> mu d" by (auto dest: Dispatch_Inr_unlocked)
  from Dispatch_effect[OF this, of name e] assms CallDispatch show ?thesis by auto
next
  case CallResume
  with assms have "d' = Resume d" by simp
  then show ?thesis using Resume_effect(7)[of d] by simp
next
  case (WaitEnter event)
  with assms show ?thesis by (auto dest: Wait_enter_effect)
next
  case WaitIter
  with assms have m: "map args (tasks d') = map args (tasks d)"
    by (auto dest: Wait_iter_effect(6))
  then have "length (tasks d') = length (tasks d)" by (metis length_map)
  with m show ?thesis by simp
next
  case (Step i)
  with assms obtain c where "tasks d' = (tasks d)[i := (tasks d ! i)\<lparr>t_pc := c\<rparr>]"
    using executeListener_effect(2)[of i d d'] by auto
  then show ?thesis by simp
qed (use assms in \<open>auto simp: Listener_def ListenerFunc_def Pause_def\<close>)

lemma run_tasks_prefix:
  assumes "run acts d = Inr d'"
  shows "length (tasks d) \<le> length (tasks d') \<and>
         map args (take (length (tasks d)) (tasks d')) = map args (tasks d)"
proof -
  let ?P = "\<lambda>x. length (tasks d) \<le> length (tasks x) \<and>
         map args (take (length (tasks d)) (tasks x)) = map args (tasks d)"
  have "?P d'"
  proof (rule run_invariant[OF assms, of ?P])
    show "?P d" by simp
  next
    fix a x y
    assume p: "?P x" and s: "step a x = Inr y"
    from step_tasks_prefix[OF s] have l: "length (tasks x) \<le> length (tasks y)"
      and m: "map args (take (length (tasks x)) (tasks y)) = map args (tasks x)" by auto
    have "take (length (tasks d)) (map args (tasks y)) =
          take (length (tasks d)) (take (length (tasks x)) (map args (tasks y)))"
      using p by (simp add: min_def)
    also have "\<dots> = take (length (tasks d)) (map args (tasks x))"
      using m by (simp add: take_map)
    also have "\<dots> = map args (tasks d)"
      using p by (simp add: take_map)
    finally show "?P y" using p l by (simp add: take_map)
  qed
  then show ?thesis .
qed

subsection \<open>A goroutine never returns to its pause check\<close>

lemma resume_inner_started:
  "i < length (tasks d) \<Longrightarrow> t_pc (tasks d ! i) \<noteq> PauseCheck \<Longrightarrow>
   t_pc (tasks (resume_inner cs d) ! i) \<noteq> PauseCheck"
  by (induction cs arbitrary: d) (auto simp: try_send_def deliver_started)

lemma length_tasks_resume_inner [simp]:
  "length (tasks (resume_inner cs d)) = length (tasks d)"
  by (induction cs arbitrary: d) (auto simp: try_send_def)

lemma resume_loop_started:
  "i < length (tasks d) \<Longrightarrow> t_pc (tasks d ! i) \<noteq> PauseCheck \<Longrightarrow>
   t_pc (tasks (resume_loop m d) ! i) \<noteq> PauseCheck"
  by (induction m arbitrary: d) (auto simp: resume_inner_started)

lemma step_started:
  assumes "step a d = Inr d'" and "i < length (tasks d)" and "t_pc (tasks d ! i) \<noteq> PauseCheck"
  shows "t_pc (tasks d' ! i) \<noteq> PauseCheck"
proof (cases a)
  case (CallDispatch name e)
  with assms have "\<not> mu d" by (auto dest: Dispatch_Inr_unlocked)
  from Dispatch_effect[OF this, of name e] assms CallDispatch show ?thesis
    by (auto simp: nth_append)
next
  case CallResume
  with assms have "d' = Resume d" by simp
  with assms(2,3) show ?thesis
    by (cases "paused d") (simp_all add: Resume_def resume_loop_started)
next
  case (WaitEnter event)
  with assms show ?thesis by (auto dest: Wait_enter_effect)
next
  case WaitIter
  with assms(1) have "tasks d' = tasks d \<or> (\<exists>c. tasks d' = receive c (tasks d))"
    using Wait_iter_effect(1)[of d d'] by (auto split: if_splits)
  with assms(2,3) show ?thesis by (auto simp: receive_started)
next
  case (Step j)
  with assms obtain c where c: "c \<noteq> PauseCheck" "tasks d' = (tasks d)[j := (tasks d ! j)\<lparr>t_pc := c\<rparr>]"
    using executeListener_effect(2)[of j d d'] by auto
  with assms(2,3) show ?thesis by (cases "i = j") auto
qed (use assms in \<open>auto simp: Listener_def ListenerFunc_def Pause_def\<close>)

lemma run_started:
  assumes "run acts d = Inr d'" and "i < length (tasks d)" and "t_pc (tasks d ! i) \<noteq> PauseCheck"
  shows "i < length (tasks d') \<and> t_pc (tasks d' ! i) \<noteq> PauseCheck"
proof (rule run_invariant[OF assms(1), of "\<lambda>x. i < length (tasks x) \<and> t_pc (tasks x ! i) \<noteq> PauseCheck"])
  show "i < length (tasks d) \<and> t_pc (tasks d ! i) \<noteq> PauseCheck" using assms by simp
next
  fix a x y
  assume "i < length (tasks x) \<and> t_pc (tasks x ! i) \<noteq> PauseCheck" and "step a x = Inr y"
  then show "i < length (tasks y) \<and> t_pc (tasks y ! i) \<noteq> PauseCheck"
    using step_started[of a x y i] step_tasks_prefix[of a x y] by auto
qed

lemma step_tasks_length:
  assumes "step a d = Inr d'" and "\<forall>name e. a \<noteq> CallDispatch name e"
  shows "length (tasks d') = length (tasks d)"
proof (cases a)
  case CallResume
  with assms show ?thesis by auto
next
  case (WaitEnter event)
  with assms show ?thesis by (auto dest: Wait_enter_effect)
next
  case WaitIter
  with assms have "map args (tasks d') = map args (tasks d)"
    by (auto dest: Wait_iter_effect(6))
  then show ?thesis by (metis length_map)
next
  case (Step i)
  with assms obtain c where "tasks d' = (tasks d)[i := (tasks d ! i)\<lparr>t_pc := c\<rparr>]"
    using executeListener_effect(2)[of i d d'] by auto
  then show ?thesis by simp
qed (use assms in \<open>auto simp: Listener_def ListenerFunc_def Pause_def\<close>)

lemma run_tasks_length:
  "run acts d = Inr d' \<Longrightarrow> \<forall>name e. CallDispatch name e \<notin> set acts \<Longrightarrow>
   length (tasks d') = length (tasks d)"
proof (induction acts arbitrary: d)
  case Nil
  then show ?case by simp
next
  case (Cons a acts)
  then obtain x where x: "step a d = Inr x" "run acts x = Inr d'"
    by (auto split: sum.splits)
  have "length (tasks x) = length (tasks d)"
    using step_tasks_length[OF x(1)] Cons.prems(2) by auto
  moreover have "length (tasks d') = length (tasks x)"
    using Cons.IH[OF x(2)] Cons.prems(2) by auto
  ultimately show ?case by simp
qed

section \<open>An unrecognised listener value\<close>

text \<open>
  C7. When the value stored for a listener is neither an implementation of \<open>Listener\<close> nor
  a \<open>ListenerFunc\<close>, the goroutine panics with \<open>Invalid listener\<close> at its type switch: the
  step is a panic, not a step to a next state, both when the goroutine stands at the switch
  and when it starts unpaused and runs its two first steps.
\<close>

theorem invalid_listener_panics:
  assumes "i < length (tasks d)"
    and "\<forall>c. t_l (tasks d ! i) \<noteq> ListenerV c"
    and "\<forall>f. t_l (tasks d ! i) \<noteq> ListenerFuncV f"
  shows "(t_pc (tasks d ! i) = TypeSwitch \<longrightarrow>
            executeListener i d = Inl (Panic ''Invalid listener'')) \<and>
         (t_pc (tasks d ! i) = PauseCheck \<and> \<not> paused d \<longrightarrow>
            run [Step i, Step i] d = Inl (Panic ''Invalid listener''))"
proof -
  have inv: "invoke (t_l (tasks d ! i)) = Inl (Panic ''Invalid listener'')"
    using assms(2,3) by (cases "t_l (tasks d ! i)") auto
  show ?thesis
    using assms(1) inv by (auto simp: executeListener_def set_pc_def)
qed

theorem invalid_listener_panics_witness:
  "0 < length (tasks (after [CallListener ''a'' None, CallDispatch ''a'' ev0, Step 0])) \<and>
   t_l (tasks (after [CallListener ''a'' None, CallDispatch ''a'' ev0, Step 0]) ! 0) = NilV \<and>
   t_pc (tasks (after [CallListener ''a'' None, CallDispatch ''a'' ev0, Step 0]) ! 0) = TypeSwitch \<and>
   executeListener 0 (after [CallListener ''a'' None, CallDispatch ''a'' ev0, Step 0]) =
     Inl (Panic ''Invalid listener'') \<and>
   t_pc (tasks (after [CallListener ''a'' None, CallDispatch ''a'' ev0]) ! 0) = PauseCheck \<and>
   \<not> paused (after [CallListener ''a'' None, CallDispatch ''a'' ev0]) \<and>
   run [Step 0, Step 0] (after [CallListener ''a'' None, CallDispatch ''a'' ev0]) =
     Inl (Panic ''Invalid listener'')"
proof -
  let ?d = "after [CallListener ''a'' None, CallDispatch ''a'' ev0, Step 0]"
  let ?da = "after [CallListener ''a'' None, CallDispatch ''a'' ev0]"
  have h: "0 < length (tasks ?d)" "t_l (tasks ?d ! 0) = NilV" "t_pc (tasks ?d ! 0) = TypeSwitch"
    by (simp_all add: exec)
  have h0: "0 < length (tasks ?da)" "t_l (tasks ?da ! 0) = NilV"
    "t_pc (tasks ?da ! 0) = PauseCheck" "\<not> paused ?da"
    by (simp_all add: exec)
  show ?thesis
    using h h0 invalid_listener_panics [of 0 ?d] invalid_listener_panics [of 0 ?da]
    by simp
qed

section \<open>When the pause-gate leaves the bookkeeping\<close>




section \<open>The paused flag is read once\<close>

text \<open>
  C5. A goroutine reads \<open>d.paused\<close> in its first step only, before the listener body runs:
  from \<open>PauseCheck\<close> it goes to the receive on its pause-gate or to the type switch, as the
  flag says. Once it is past that step, its steps do not depend on the flag: a step in a state
  with the flag set to any value (by \<open>Pause\<close> in particular) is the step in the state itself,
  with that flag value carried along, so it blocks, panics or moves exactly as it would have.
  And no schedule brings the goroutine back to \<open>PauseCheck\<close>.
\<close>

theorem paused_read_once:
  assumes "i < length (tasks d)"
  shows "(t_pc (tasks d ! i) = PauseCheck \<longrightarrow>
            executeListener i d = Inr (set_pc i (if paused d then RecvP else TypeSwitch) d)) \<and>
         (t_pc (tasks d ! i) \<noteq> PauseCheck \<longrightarrow>
            executeListener i (d\<lparr>paused := b\<rparr>) =
              map_sum id (\<lambda>d'. d'\<lparr>paused := b\<rparr>) (executeListener i d) \<and>
            executeListener i (Pause d) = map_sum id Pause (executeListener i d) \<and>
            (\<forall>acts d'. run acts d = Inr d' \<longrightarrow>
               i < length (tasks d') \<and> t_pc (tasks d' ! i) \<noteq> PauseCheck))"
proof -
  have 1: "t_pc (tasks d ! i) = PauseCheck \<Longrightarrow>
      executeListener i d = Inr (set_pc i (if paused d then RecvP else TypeSwitch) d)"
    using assms by (simp add: executeListener_def)
  have 2: "executeListener i (d\<lparr>paused := c\<rparr>) =
              map_sum id (\<lambda>d'. d'\<lparr>paused := c\<rparr>) (executeListener i d)"
    if "t_pc (tasks d ! i) \<noteq> PauseCheck" for c
    using assms that
    by (cases "t_pc (tasks d ! i)")
       (auto simp: executeListener_def set_pc_def Let_def split: sum.splits)
  have 3: "executeListener i (Pause d) = map_sum id Pause (executeListener i d)"
    if "t_pc (tasks d ! i) \<noteq> PauseCheck"
  proof -
    have P: "Pause = (\<lambda>d'. d'\<lparr>paused := True\<rparr>)" by (simp add: fun_eq_iff Pause_def)
    show ?thesis unfolding P by (rule 2[OF that])
  qed
  have 4: "\<forall>acts d'. run acts d = Inr d' \<longrightarrow>
               i < length (tasks d') \<and> t_pc (tasks d' ! i) \<noteq> PauseCheck"
    if "t_pc (tasks d ! i) \<noteq> PauseCheck"
    using run_started[OF _ assms that] by blast
  show ?thesis using 1 2 3 4 by blast
qed

theorem paused_read_once_witness:
  "0 < length (tasks (after [CallListenerFunc ''a'' (Some Silent), CallDispatch ''a'' ev0])) \<and>
   t_pc (tasks (after [CallListenerFunc ''a'' (Some Silent), CallDispatch ''a'' ev0]) ! 0) = PauseCheck \<and>
   executeListener 0 (after [CallListenerFunc ''a'' (Some Silent), CallDispatch ''a'' ev0]) =
     Inr (after [CallListenerFunc ''a'' (Some Silent), CallDispatch ''a'' ev0, Step 0]) \<and>
   t_pc (tasks (after [CallListenerFunc ''a'' (Some Silent), CallDispatch ''a'' ev0, Step 0]) ! 0) = TypeSwitch \<and>
   executeListener 0 (Pause (after [CallListenerFunc ''a'' (Some Silent), CallDispatch ''a'' ev0, Step 0])) =
     map_sum id Pause
       (executeListener 0 (after [CallListenerFunc ''a'' (Some Silent), CallDispatch ''a'' ev0, Step 0])) \<and>
   run [CallPause, Step 0]
       (after [CallListenerFunc ''a'' (Some Silent), CallDispatch ''a'' ev0, Step 0]) =
     Inr (Pause (after [CallListenerFunc ''a'' (Some Silent), CallDispatch ''a'' ev0, Step 0, Step 0])) \<and>
   t_pc (tasks (Pause (after [CallListenerFunc ''a'' (Some Silent), CallDispatch ''a'' ev0, Step 0, Step 0])) ! 0)
     \<noteq> PauseCheck"
proof -
  let ?a = "after [CallListenerFunc ''a'' (Some Silent), CallDispatch ''a'' ev0]"
  let ?b = "after [CallListenerFunc ''a'' (Some Silent), CallDispatch ''a'' ev0, Step 0]"
  let ?c = "after [CallListenerFunc ''a'' (Some Silent), CallDispatch ''a'' ev0, Step 0, Step 0]"
  have a: "0 < length (tasks ?a)" "t_pc (tasks ?a ! 0) = PauseCheck"
    "set_pc 0 (if paused ?a then RecvP else TypeSwitch) ?a = ?b"
    by (simp_all add: exec)
  have b: "0 < length (tasks ?b)" "t_pc (tasks ?b ! 0) = TypeSwitch"
    "run [CallPause, Step 0] ?b = Inr (Pause ?c)"
    by (simp_all add: exec)
  have c: "t_pc (tasks ?b ! 0) \<noteq> PauseCheck" using b(2) by simp
  from paused_read_once [OF a(1), of True] a(2,3)
  have 1: "executeListener 0 ?a = Inr ?b" by simp
  from paused_read_once [OF b(1), of True] c
  have 2: "executeListener 0 (Pause ?b) = map_sum id Pause (executeListener 0 ?b)"
    and 3: "\<forall>acts d'. run acts ?b = Inr d' \<longrightarrow>
               0 < length (tasks d') \<and> t_pc (tasks d' ! 0) \<noteq> PauseCheck"
    by blast+
  from 3 b(3) have 4: "t_pc (tasks (Pause ?c) ! 0) \<noteq> PauseCheck" by blast
  show ?thesis using a(1,2) b(2,3) 1 2 4 by simp
qed

section \<open>Handlers registered after a dispatch\<close>

text \<open>
  C6. The goroutines of a dispatch are fixed by the listeners registered when \<open>Dispatch\<close> is
  called. If \<open>Dispatch\<close> returns \<open>d1\<close> from \<open>d\<close>, it has started one goroutine per listener
  of the event in \<open>d\<close>; after any schedule from \<open>d1\<close> the goroutines at those positions of
  the pool still carry exactly these listeners, in order; registering a listener starts no
  goroutine; and a schedule without a further dispatch leaves the pool at its size.
\<close>

theorem dispatch_fixes_its_tasks:
  assumes "Dispatch name e d = Inr d1" and "run acts d1 = Inr d2"
  shows "length (tasks d1) = length (tasks d) + length (at (listeners d) name) \<and>
         length (tasks d1) \<le> length (tasks d2) \<and>
         map t_l (drop (length (tasks d)) (take (length (tasks d1)) (tasks d2))) =
           at (listeners d) name \<and>
         tasks (Listener event l d1) = tasks d1 \<and>
         tasks (ListenerFunc event f d1) = tasks d1 \<and>
         ((\<forall>name' e'. CallDispatch name' e' \<notin> set acts) \<longrightarrow>
            length (tasks d2) = length (tasks d1))"
proof -
  have u: "\<not> mu d" using assms(1) by (rule Dispatch_Inr_unlocked)
  from Dispatch_effect[OF u, of name e] assms(1)
  have t: "tasks d1 = tasks d @ new_tasks name e (fresh d) (at (listeners d) name)" by auto
  then have 1: "length (tasks d1) = length (tasks d) + length (at (listeners d) name)" by simp
  from run_tasks_prefix[OF assms(2)]
  have 2: "length (tasks d1) \<le> length (tasks d2)"
    and m: "map args (take (length (tasks d1)) (tasks d2)) = map args (tasks d1)" by auto
  have "map t_l (take (length (tasks d1)) (tasks d2)) = map t_l (tasks d1)"
    using m by (rule args_fields)
  then have "map t_l (drop (length (tasks d)) (take (length (tasks d1)) (tasks d2))) =
      drop (length (tasks d)) (map t_l (tasks d1))"
    by (metis drop_map)
  also have "\<dots> = at (listeners d) name"
    using t by (simp add: new_tasks_l)
  finally have 3: "map t_l (drop (length (tasks d)) (take (length (tasks d1)) (tasks d2))) =
      at (listeners d) name" .
  have 4: "tasks (Listener event l d1) = tasks d1" "tasks (ListenerFunc event f d1) = tasks d1"
    by (simp_all add: Listener_def ListenerFunc_def)
  have 5: "(\<forall>name' e'. CallDispatch name' e' \<notin> set acts) \<longrightarrow>
            length (tasks d2) = length (tasks d1)"
    using run_tasks_length[OF assms(2)] by blast
  from 1 2 3 4 5 show ?thesis by blast
qed

theorem dispatch_fixes_its_tasks_witness:
  "Dispatch ''a'' ev0 (after [CallListenerFunc ''a'' (Some Silent)]) =
     Inr (after [CallListenerFunc ''a'' (Some Silent), CallDispatch ''a'' ev0]) \<and>
   run [CallListenerFunc ''a'' (Some Signals), Step 0]
       (after [CallListenerFunc ''a'' (Some Silent), CallDispatch ''a'' ev0]) =
     Inr (after [CallListenerFunc ''a'' (Some Silent), CallDispatch ''a'' ev0,
                 CallListenerFunc ''a'' (Some Signals), Step 0]) \<and>
   at (listeners (after [CallListenerFunc ''a'' (Some Silent), CallDispatch ''a'' ev0,
                 CallListenerFunc ''a'' (Some Signals), Step 0])) ''a'' =
     [ListenerFuncV (Some Silent), ListenerFuncV (Some Signals)] \<and>
   map t_l (tasks (after [CallListenerFunc ''a'' (Some Silent), CallDispatch ''a'' ev0,
                 CallListenerFunc ''a'' (Some Signals), Step 0])) =
     [ListenerFuncV (Some Silent)]"
proof -
  let ?a = "after [CallListenerFunc ''a'' (Some Silent)]"
  let ?b = "after [CallListenerFunc ''a'' (Some Silent), CallDispatch ''a'' ev0]"
  let ?c = "after [CallListenerFunc ''a'' (Some Silent), CallDispatch ''a'' ev0,
                 CallListenerFunc ''a'' (Some Signals), Step 0]"
  have a: "Dispatch ''a'' ev0 ?a = Inr ?b"
    by (simp add: exec)
  have b: "run [CallListenerFunc ''a'' (Some Signals), Step 0] ?b = Inr ?c"
    by (simp add: exec)
  have c: "at (listeners ?c) ''a'' = [ListenerFuncV (Some Silent), ListenerFuncV (Some Signals)]"
    "at (listeners ?a) ''a'' = [ListenerFuncV (Some Silent)]"
    "length (tasks ?a) = 0" "length (tasks ?b) = 1" "length (tasks ?c) = 1"
    by (simp_all add: exec)
  from dispatch_fixes_its_tasks [OF a b] c(2-5)
  have "map t_l (tasks ?c) = [ListenerFuncV (Some Silent)]" by simp
  with a b c(1) show ?thesis by simp
qed

section \<open>Invariants\<close>

lemma set_somes: "set (somes xs) = {c. Some c \<in> set xs}"
  by (induction xs rule: somes.induct) auto

lemma somes_append: "somes (xs @ ys) = somes xs @ somes ys"
  by (induction xs rule: somes.induct) auto

lemma somes_map_Some: "somes (map (Some \<circ> f) xs) = map f xs"
  by (induction xs) auto

lemma set_somes_update: "set (somes (xs[i := None])) \<subseteq> set (somes xs)"
  by (auto simp: set_somes dest: set_update_subset_insert[THEN subsetD])

lemma distinct_somes_update: "distinct (somes xs) \<Longrightarrow> distinct (somes (xs[i := None]))"
proof (induction xs arbitrary: i rule: somes.induct)
  case (3 x xs)
  show ?case
  proof (cases i)
    case 0
    with 3 show ?thesis by simp
  next
    case (Suc j)
    with 3 set_somes_update[of xs j] show ?thesis by auto
  qed
qed (auto split: nat.splits)

lemma count_list_filter: "count_list (map f xs) k = length (filter (\<lambda>x. f x = k) xs)"
  by (induction xs) auto

subsection \<open>Goroutine channels\<close>

lemma inv_tasks_same:
  "map args (tasks d') = map args (tasks d) \<Longrightarrow> fresh d' = fresh d \<Longrightarrow>
   inv_tasks d \<Longrightarrow> inv_tasks d'"
proof -
  assume m: "map args (tasks d') = map args (tasks d)" and f: "fresh d' = fresh d"
    and i: "inv_tasks d"
  have "map t_p (tasks d') = map t_p (tasks d)" "map t_q (tasks d') = map t_q (tasks d)"
    using args_fields(3,4)[OF m] .
  with i f show "inv_tasks d'" by (simp add: inv_tasks_def)
qed

lemma inv_tasks_step:
  assumes "inv_tasks d" and "step a d = Inr d'"
  shows "inv_tasks d'"
proof (cases a)
  case (CallDispatch name e)
  with assms have u: "\<not> mu d" by (auto dest: Dispatch_Inr_unlocked)
  let ?new = "new_tasks name e (fresh d) (at (listeners d) name)"
  from Dispatch_effect[OF u, of name e] assms(2) CallDispatch
  have t: "tasks d' = tasks d @ ?new"
    and f: "fresh d' = fresh d + 2 * length (at (listeners d) name)" by auto
  have n: "\<forall>t\<in>set ?new. fresh d \<le> t_p t \<and> t_p t < fresh d' \<and> fresh d \<le> t_q t \<and> t_q t < fresh d'"
  proof
    fix t assume "t \<in> set ?new"
    from new_tasks_fields[OF this] f
    show "fresh d \<le> t_p t \<and> t_p t < fresh d' \<and> fresh d \<le> t_q t \<and> t_q t < fresh d'"
      by simp
  qed
  have o: "\<forall>x\<in>set (tasks d). t_p x < fresh d \<and> t_q x < fresh d"
    using assms(1) by (simp add: inv_tasks_def)
  have "t_p x \<noteq> t_p y \<and> t_q x \<noteq> t_q y" if "x \<in> set (tasks d)" "y \<in> set ?new" for x y
    using o n that by fastforce
  then have dj: "set (map t_p (tasks d)) \<inter> set (map t_p ?new) = {}"
    "set (map t_q (tasks d)) \<inter> set (map t_q ?new) = {}"
    by auto
  have b: "\<forall>x\<in>set (tasks d @ ?new). t_p x < fresh d' \<and> t_q x < fresh d'"
    using o n f by fastforce
  show ?thesis
    using assms(1) b dj unfolding inv_tasks_def t
    by (auto simp: new_tasks_distinct_p new_tasks_distinct_q)
next
  case CallResume
  with assms(2) have "d' = Resume d" by simp
  then show ?thesis using inv_tasks_same[OF Resume_effect(7,5) assms(1)] by simp
next
  case (WaitEnter event)
  with assms show ?thesis by (auto simp: inv_tasks_def dest!: Wait_enter_effect(2))
next
  case WaitIter
  with assms(2) have w: "Wait_iter d = Inr d'" by simp
  show ?thesis by (rule inv_tasks_same[OF Wait_iter_effect(6)[OF w] Wait_iter_effect(3)[OF w] assms(1)])
next
  case (Step i)
  with assms(2) obtain c where "tasks d' = (tasks d)[i := (tasks d ! i)\<lparr>t_pc := c\<rparr>]"
    using executeListener_effect(2)[of i d d'] by auto
  then have "map args (tasks d') = map args (tasks d)" by simp
  moreover have "fresh d' = fresh d"
    using assms(2) Step by (auto dest: executeListener_effect(3))
  ultimately show ?thesis using assms(1) by (rule inv_tasks_same)
qed (use assms in \<open>auto simp: Listener_def ListenerFunc_def Pause_def inv_tasks_def\<close>)

subsection \<open>Pause-gates\<close>

lemma inv_pchans_step:
  assumes "inv_pchans d" and "step a d = Inr d'"
  shows "inv_pchans d'"
proof (cases a)
  case (CallDispatch name e)
  with assms have u: "\<not> mu d" by (auto dest: Dispatch_Inr_unlocked)
  let ?new = "new_tasks name e (fresh d) (at (listeners d) name)"
  from Dispatch_effect[OF u, of name e] assms(2) CallDispatch
  have p: "\<And>k. set (at (pchans d') k) =
           (if k = name then set (at (pchans d) name) \<union> t_p ` set ?new else set (at (pchans d) k))"
    and f: "fresh d' = fresh d + 2 * length (at (listeners d) name)" by auto
  have n: "\<forall>t\<in>set ?new. t_p t < fresh d'"
  proof
    fix t assume "t \<in> set ?new"
    from new_tasks_fields[OF this] f show "t_p t < fresh d'" by simp
  qed
  show ?thesis
    unfolding inv_pchans_def
  proof (intro allI ballI)
    fix k c assume "c \<in> set (at (pchans d') k)"
    then have "c \<in> set (at (pchans d) k) \<or> c \<in> t_p ` set ?new"
      using p[of k] by (auto split: if_splits)
    then show "c < fresh d'"
      using assms(1) n f by (auto simp: inv_pchans_def intro: trans_less_add1)
  qed
next
  case CallResume
  with assms(2) have "d' = Resume d" by simp
  then show ?thesis using assms(1) Resume_effect(3,5)[of d] by (simp add: inv_pchans_def)
next
  case (WaitEnter event)
  with assms show ?thesis by (auto simp: inv_pchans_def dest!: Wait_enter_effect(2))
next
  case WaitIter
  with assms(2) have "pchans d' = pchans d" "fresh d' = fresh d"
    by (auto dest: Wait_iter_effect(2,3))
  then show ?thesis using assms(1) by (simp add: inv_pchans_def)
next
  case (Step i)
  with assms(2) have "\<And>k. set (at (pchans d') k) \<subseteq> set (at (pchans d) k)" "fresh d' = fresh d"
    by (auto dest: executeListener_effect(3,9))
  then show ?thesis using assms(1) by (auto simp: inv_pchans_def)
qed (use assms in \<open>auto simp: Listener_def ListenerFunc_def Pause_def inv_pchans_def\<close>)

subsection \<open>Completion-gates\<close>

lemma inv_qchans_same:
  "qchans d' = qchans d \<Longrightarrow> fresh d' = fresh d \<Longrightarrow> inv_qchans d \<Longrightarrow> inv_qchans d'"
  by (simp add: inv_qchans_def)

lemma inv_qchans_step:
  assumes "inv_qchans d" and "step a d = Inr d'"
  shows "inv_qchans d'"
proof (cases a)
  case (CallDispatch name e)
  with assms have u: "\<not> mu d" by (auto dest: Dispatch_Inr_unlocked)
  let ?new = "new_tasks name e (fresh d) (at (listeners d) name)"
  from Dispatch_effect[OF u, of name e] assms(2) CallDispatch
  have q: "\<And>k. at (qchans d') k =
           (if k = name then at (qchans d) name @ map (Some \<circ> t_q) ?new else at (qchans d) k)"
    and f: "fresh d' = fresh d + 2 * length (at (listeners d) name)" by auto
  have n: "\<forall>t\<in>set ?new. fresh d \<le> t_q t \<and> t_q t < fresh d'"
  proof
    fix t assume "t \<in> set ?new"
    from new_tasks_fields[OF this] f show "fresh d \<le> t_q t \<and> t_q t < fresh d'" by simp
  qed
  have o: "\<And>k. \<forall>c\<in>set (somes (at (qchans d) k)). c < fresh d"
    "\<And>k. distinct (somes (at (qchans d) k))"
    using assms(1) by (simp_all add: inv_qchans_def)
  have dj: "set (somes (at (qchans d) name)) \<inter> set (map t_q ?new) = {}"
    using o(1)[of name] n by fastforce
  show ?thesis
    unfolding inv_qchans_def
  proof (intro allI conjI)
    fix k
    have "set (somes (at (qchans d') k)) \<subseteq> set (somes (at (qchans d) k)) \<union> t_q ` set ?new"
      by (auto simp: q somes_append somes_map_Some)
    moreover have "\<forall>c\<in>set (somes (at (qchans d) k)). c < fresh d'"
      using o(1)[of k] f by auto
    ultimately show "\<forall>c\<in>set (somes (at (qchans d') k)). c < fresh d'"
      using n by auto
    show "distinct (somes (at (qchans d') k))"
      using o(2)[of k] o(2)[of name] dj
      by (simp add: q somes_append somes_map_Some new_tasks_distinct_q)
  qed
next
  case CallResume
  with assms(2) have "d' = Resume d" by simp
  then show ?thesis using inv_qchans_same[OF Resume_effect(4,5) assms(1)] by simp
next
  case (WaitEnter event)
  with assms show ?thesis by (auto simp: inv_qchans_def dest!: Wait_enter_effect(2))
next
  case WaitIter
  with assms(2) have w: "Wait_iter d = Inr d'" by simp
  have f: "fresh d' = fresh d" using w by (rule Wait_iter_effect(3))
  from w show ?thesis
  proof (cases rule: Wait_iter_cases)
    case (iter event i n)
    note q = iter(5)
    show ?thesis
      unfolding inv_qchans_def
    proof (intro allI conjI)
      fix k
      show "\<forall>c\<in>set (somes (at (qchans d') k)). c < fresh d'"
        using assms(1) set_somes_update[of "at (qchans d) event" i] f
        by (auto simp: inv_qchans_def q)
      show "distinct (somes (at (qchans d') k))"
        using assms(1) by (simp add: inv_qchans_def q distinct_somes_update)
    qed
  next
    case (return event i n)
    with assms(1) show ?thesis by (simp add: inv_qchans_def)
  qed
next
  case (Step i)
  with assms(2) have "qchans d' = qchans d" "fresh d' = fresh d"
    by (auto dest: executeListener_effect(3,4))
  then show ?thesis using assms(1) by (rule inv_qchans_same)
qed (use assms in \<open>auto simp: Listener_def ListenerFunc_def Pause_def inv_qchans_def\<close>)

subsection \<open>Lengths of the completion-gate sequences\<close>

lemma inv_length_same:
  "qchans d' = qchans d \<Longrightarrow> map args (tasks d') = map args (tasks d) \<Longrightarrow>
   inv_length d \<Longrightarrow> inv_length d'"
proof -
  assume q: "qchans d' = qchans d" and m: "map args (tasks d') = map args (tasks d)"
    and i: "inv_length d"
  have "map t_name (tasks d') = map t_name (tasks d)"
    using m by (rule args_fields)
  with i q show "inv_length d'" by (simp add: inv_length_def)
qed

lemma count_new_tasks:
  "count_list (map t_name (new_tasks name e c ls)) k = (if k = name then length ls else 0)"
  by (induction ls arbitrary: c) auto

lemma inv_length_step:
  assumes "inv_length d" and "step a d = Inr d'"
  shows "inv_length d'"
proof (cases a)
  case (CallDispatch name e)
  with assms have u: "\<not> mu d" by (auto dest: Dispatch_Inr_unlocked)
  let ?new = "new_tasks name e (fresh d) (at (listeners d) name)"
  from Dispatch_effect[OF u, of name e] assms(2) CallDispatch
  have q: "\<And>k. at (qchans d') k =
           (if k = name then at (qchans d) name @ map (Some \<circ> t_q) ?new else at (qchans d) k)"
    and t: "tasks d' = tasks d @ ?new" by auto
  show ?thesis
    using assms(1) by (simp add: inv_length_def q t count_new_tasks)
next
  case CallResume
  with assms(2) have "d' = Resume d" by simp
  then show ?thesis using inv_length_same[OF Resume_effect(4,7) assms(1)] by simp
next
  case (WaitEnter event)
  with assms show ?thesis by (auto simp: inv_length_def dest!: Wait_enter_effect(2))
next
  case WaitIter
  with assms(2) have w: "Wait_iter d = Inr d'" by simp
  have m: "map t_name (tasks d') = map t_name (tasks d)"
    using Wait_iter_effect(6)[OF w] by (rule args_fields)
  from w show ?thesis
  proof (cases rule: Wait_iter_cases)
    case (iter event i n)
    then show ?thesis using assms(1) by (simp add: inv_length_def m)
  next
    case (return event i n)
    with assms(1) show ?thesis by (simp add: inv_length_def)
  qed
next
  case (Step i)
  with assms(2) obtain c where "tasks d' = (tasks d)[i := (tasks d ! i)\<lparr>t_pc := c\<rparr>]"
    using executeListener_effect(2)[of i d d'] by auto
  then have m: "map args (tasks d') = map args (tasks d)" by simp
  have q: "qchans d' = qchans d"
    using assms(2) Step by (auto dest: executeListener_effect(4))
  show ?thesis by (rule inv_length_same[OF q m assms(1)])
qed (use assms in \<open>auto simp: Listener_def ListenerFunc_def Pause_def inv_length_def\<close>)

subsection \<open>The frame of Wait\<close>

lemma inv_waiting_step:
  assumes "inv_waiting d" and "step a d = Inr d'"
  shows "inv_waiting d'"
proof (cases a)
  case (CallDispatch name e)
  with assms have u: "\<not> mu d" by (auto dest: Dispatch_Inr_unlocked)
  with assms(1) have n: "waiting d = None"
    by (auto simp: inv_waiting_def split: option.splits)
  from Dispatch_effect[OF u, of name e] assms(2) CallDispatch
  have "waiting d' = waiting d" by auto
  with n show ?thesis by (simp add: inv_waiting_def)
next
  case CallResume
  with assms(2) have "d' = Resume d" by simp
  then show ?thesis using assms(1) Resume_effect(1,4,6)[of d]
    by (auto simp: inv_waiting_def split: option.splits)
next
  case (WaitEnter event)
  with assms show ?thesis by (auto simp: inv_waiting_def dest!: Wait_enter_effect(2))
next
  case WaitIter
  with assms(2) have w: "Wait_iter d = Inr d'" by simp
  from w show ?thesis
  proof (cases rule: Wait_iter_cases)
    case (iter event i n)
    then show ?thesis using assms(1) by (simp add: inv_waiting_def)
  next
    case (return event i n)
    then show ?thesis by (simp add: inv_waiting_def)
  qed
next
  case (Step i)
  with assms(2) have "qchans d' = qchans d" "mu d' = mu d" "waiting d' = waiting d"
    by (auto dest: executeListener_effect(4,7,8))
  then show ?thesis using assms(1) by (auto simp: inv_waiting_def split: option.splits)
qed (use assms in \<open>auto simp: Listener_def ListenerFunc_def Pause_def inv_waiting_def
      split: option.splits\<close>)

subsection \<open>Reachable states\<close>

lemma reachable_inv:
  assumes "run acts NewDispatcher = Inr d"
  shows "inv_tasks d" and "inv_pchans d" and "inv_qchans d" and "inv_length d" and "inv_waiting d"
proof -
  show "inv_tasks d"
  proof (rule run_invariant[OF assms, of inv_tasks])
    show "inv_tasks NewDispatcher" by (simp add: inv_tasks_def NewDispatcher_def)
  qed (rule inv_tasks_step)
  show "inv_pchans d"
  proof (rule run_invariant[OF assms, of inv_pchans])
    show "inv_pchans NewDispatcher" by (simp add: inv_pchans_def NewDispatcher_def at_def)
  qed (rule inv_pchans_step)
  show "inv_qchans d"
  proof (rule run_invariant[OF assms, of inv_qchans])
    show "inv_qchans NewDispatcher" by (simp add: inv_qchans_def NewDispatcher_def at_def)
  qed (rule inv_qchans_step)
  show "inv_length d"
  proof (rule run_invariant[OF assms, of inv_length])
    show "inv_length NewDispatcher" by (simp add: inv_length_def NewDispatcher_def at_def)
  qed (rule inv_length_step)
  show "inv_waiting d"
  proof (rule run_invariant[OF assms, of inv_waiting])
    show "inv_waiting NewDispatcher" by (simp add: inv_waiting_def NewDispatcher_def)
  qed (rule inv_waiting_step)
qed

section \<open>Dispatch\<close>




section \<open>The length of a completion-gate sequence\<close>

lemma step_qchans_length:
  assumes "step a d = Inr d'"
  shows "length (at (qchans d) k) \<le> length (at (qchans d') k)"
proof (cases a)
  case (CallDispatch name e)
  with assms have u: "\<not> mu d" by (auto dest: Dispatch_Inr_unlocked)
  from Dispatch_effect[OF u, of name e] assms CallDispatch show ?thesis by auto
next
  case CallResume
  with assms show ?thesis by (auto simp: Resume_effect(4))
next
  case (WaitEnter event)
  with assms show ?thesis by (auto dest!: Wait_enter_effect(2))
next
  case WaitIter
  with assms have w: "Wait_iter d = Inr d'" by simp
  then show ?thesis by (cases rule: Wait_iter_cases) simp_all
next
  case (Step i)
  with assms show ?thesis by (auto dest: executeListener_effect(4))
qed (use assms in \<open>auto simp: Listener_def ListenerFunc_def Pause_def\<close>)

text \<open>
  C10. In every state a schedule reaches from a new dispatcher, the completion-gate sequence
  of an event has one entry per goroutine ever started for the event (the pool keeps every
  goroutine, finished or not). An iteration of \<open>Wait\<close> keeps the length of every sequence;
  no action shortens a sequence; and a dispatch lengthens the sequence of its event by the
  number of listeners of that event and leaves the others.
\<close>

theorem qchans_length_counts_tasks:
  assumes "run acts NewDispatcher = Inr d"
  shows "length (at (qchans d) event) = length (filter (\<lambda>t. t_name t = event) (tasks d)) \<and>
         (\<forall>d'. Wait_iter d = Inr d' \<longrightarrow>
            length (at (qchans d') event) = length (at (qchans d) event)) \<and>
         (\<forall>a d'. step a d = Inr d' \<longrightarrow>
            length (at (qchans d) event) \<le> length (at (qchans d') event)) \<and>
         (\<forall>name e d'. Dispatch name e d = Inr d' \<longrightarrow>
            length (at (qchans d') event) =
              length (at (qchans d) event) +
              (if event = name then length (at (listeners d) name) else 0))"
proof -
  have 1: "length (at (qchans d) event) = length (filter (\<lambda>t. t_name t = event) (tasks d))"
    using reachable_inv(4)[OF assms] by (simp add: inv_length_def count_list_filter)
  have 2: "length (at (qchans d') event) = length (at (qchans d) event)"
    if "Wait_iter d = Inr d'" for d'
    using that by (cases rule: Wait_iter_cases) simp_all
  have 3: "length (at (qchans d) event) \<le> length (at (qchans d') event)"
    if "step a d = Inr d'" for a d'
    using that by (rule step_qchans_length)
  have 4: "length (at (qchans d') event) =
              length (at (qchans d) event) +
              (if event = name then length (at (listeners d) name) else 0)"
    if "Dispatch name e d = Inr d'" for name e d'
  proof -
    have u: "\<not> mu d" using that by (rule Dispatch_Inr_unlocked)
    from Dispatch_effect[OF u, of name e] that show ?thesis by auto
  qed
  from 1 2 3 4 show ?thesis by blast
qed

theorem qchans_length_counts_tasks_witness:
  "run [CallListenerFunc ''a'' (Some Signals), CallDispatch ''a'' ev0, Step 0, Step 0,
        WaitEnter ''a''] NewDispatcher =
     Inr (after [CallListenerFunc ''a'' (Some Signals), CallDispatch ''a'' ev0, Step 0, Step 0,
        WaitEnter ''a'']) \<and>
   length (at (qchans (after [CallListenerFunc ''a'' (Some Signals), CallDispatch ''a'' ev0,
        Step 0, Step 0, WaitEnter ''a''])) ''a'') = 1 \<and>
   length (filter (\<lambda>t. t_name t = ''a'')
      (tasks (after [CallListenerFunc ''a'' (Some Signals), CallDispatch ''a'' ev0, Step 0, Step 0,
        WaitEnter ''a'']))) = 1 \<and>
   Wait_iter (after [CallListenerFunc ''a'' (Some Signals), CallDispatch ''a'' ev0, Step 0, Step 0,
        WaitEnter ''a'']) =
     Inr (after [CallListenerFunc ''a'' (Some Signals), CallDispatch ''a'' ev0, Step 0, Step 0,
        WaitEnter ''a'', WaitIter]) \<and>
   at (qchans (after [CallListenerFunc ''a'' (Some Signals), CallDispatch ''a'' ev0, Step 0, Step 0,
        WaitEnter ''a'', WaitIter])) ''a'' = [None] \<and>
   run [CallListenerFunc ''a'' (Some Signals), CallDispatch ''a'' ev0] NewDispatcher =
     Inr (after [CallListenerFunc ''a'' (Some Signals), CallDispatch ''a'' ev0]) \<and>
   Dispatch ''a'' ev0 (after [CallListenerFunc ''a'' (Some Signals), CallDispatch ''a'' ev0]) =
     Inr (after [CallListenerFunc ''a'' (Some Signals), CallDispatch ''a'' ev0,
                 CallDispatch ''a'' ev0]) \<and>
   length (at (qchans (after [CallListenerFunc ''a'' (Some Signals), CallDispatch ''a'' ev0,
                 CallDispatch ''a'' ev0])) ''a'') = 2"
proof -
  let ?a = "after [CallListenerFunc ''a'' (Some Signals), CallDispatch ''a'' ev0, Step 0, Step 0,
        WaitEnter ''a'']"
  let ?b = "after [CallListenerFunc ''a'' (Some Signals), CallDispatch ''a'' ev0, Step 0, Step 0,
        WaitEnter ''a'', WaitIter]"
  let ?c = "after [CallListenerFunc ''a'' (Some Signals), CallDispatch ''a'' ev0]"
  let ?e = "after [CallListenerFunc ''a'' (Some Signals), CallDispatch ''a'' ev0,
                 CallDispatch ''a'' ev0]"
  have r: "run [CallListenerFunc ''a'' (Some Signals), CallDispatch ''a'' ev0, Step 0, Step 0,
        WaitEnter ''a''] NewDispatcher = Inr ?a"
    by (simp add: exec)
  have q: "at (qchans ?a) ''a'' = [Some 1]" "at (qchans ?b) ''a'' = [None]"
    by (simp_all add: exec)
  have w: "Wait_iter ?a = Inr ?b" by (simp add: exec)
  have rc: "run [CallListenerFunc ''a'' (Some Signals), CallDispatch ''a'' ev0] NewDispatcher = Inr ?c"
    by (simp add: exec)
  have dc: "Dispatch ''a'' ev0 ?c = Inr ?e" by (simp add: exec)
  have lc: "at (qchans ?c) ''a'' = [Some 1]" "at (listeners ?c) ''a'' = [ListenerFuncV (Some Signals)]"
    by (simp_all add: exec)
  from qchans_length_counts_tasks [OF r, of "''a''"] q(1)
  have 1: "length (filter (\<lambda>t. t_name t = ''a'') (tasks ?a)) = 1"
    and 2: "\<forall>d'. Wait_iter ?a = Inr d' \<longrightarrow> length (at (qchans d') ''a'') = 1"
    by simp_all
  from qchans_length_counts_tasks [OF rc, of "''a''"] dc lc
  have 3: "length (at (qchans ?e) ''a'') = 2" by simp
  from r q 1 w rc dc 3 show ?thesis by simp
qed

section \<open>Resume while paused\<close>


lemma release_empty [simp]: "release {} t = t"
  by (simp add: release_def)

lemma t_p_release [simp]: "t_p (release C t) = t_p t"
  by (simp add: release_def)







section \<open>Listeners registered through the public methods\<close>

lemma recognized_invoke: "recognized l \<Longrightarrow> invoke l \<noteq> Inl (Panic ''Invalid listener'')"
  by (induction l rule: invoke.induct) auto

lemma step_no_invalid_listener:
  assumes "inv_recognized d"
  shows "step a d \<noteq> Inl (Panic ''Invalid listener'')"
proof (cases a)
  case (CallDispatch name e)
  show ?thesis
  proof (cases "mu d")
    case True
    with CallDispatch show ?thesis by (simp add: Dispatch_def)
  next
    case False
    from Dispatch_effect[OF False, of name e] CallDispatch show ?thesis by auto
  qed
next
  case (WaitEnter event)
  then show ?thesis by (simp add: Wait_enter_def)
next
  case WaitIter
  then show ?thesis by (simp add: Wait_iter_def split: option.splits)
next
  case (Step i)
  show ?thesis
  proof (cases "i < length (tasks d)")
    case True
    then have "recognized (t_l (tasks d ! i))"
      using assms by (simp add: inv_recognized_def)
    from recognized_invoke[OF this] True Step show ?thesis
      by (cases "t_pc (tasks d ! i)")
         (auto simp: executeListener_def Let_def split: sum.splits)
  next
    case False
    with Step show ?thesis by (simp add: executeListener_def)
  qed
qed simp_all

lemma inv_recognized_same:
  "listeners d' = listeners d \<Longrightarrow> map args (tasks d') = map args (tasks d) \<Longrightarrow>
   inv_recognized d \<Longrightarrow> inv_recognized d'"
proof -
  assume l: "listeners d' = listeners d" and m: "map args (tasks d') = map args (tasks d)"
    and i: "inv_recognized d"
  have "map t_l (tasks d') = map t_l (tasks d)"
    using m by (rule args_fields)
  with i l show "inv_recognized d'" by (simp add: inv_recognized_def)
qed

lemma inv_recognized_step:
  assumes "inv_recognized d" and "step a d = Inr d'" and "\<forall>event. a \<noteq> CallListener event None"
  shows "inv_recognized d'"
proof (cases a)
  case (CallListener event l)
  with assms(3) obtain c where "l = Some c" by (cases l) auto
  with assms(1,2) CallListener show ?thesis
    by (auto simp: inv_recognized_def Listener_def at_update split: if_splits)
next
  case (CallListenerFunc event f)
  with assms(1,2) show ?thesis
    by (auto simp: inv_recognized_def ListenerFunc_def at_update of_ListenerFunc_def
             split: if_splits)
next
  case (CallDispatch name e)
  with assms have u: "\<not> mu d" by (auto dest: Dispatch_Inr_unlocked)
  from Dispatch_effect[OF u, of name e] assms(2) CallDispatch
  have t: "tasks d' = tasks d @ new_tasks name e (fresh d) (at (listeners d) name)"
    and l: "listeners d' = listeners d" by auto
  show ?thesis
    using assms(1) by (auto simp: inv_recognized_def t l new_tasks_l)
next
  case CallPause
  with assms(1,2) show ?thesis by (auto simp: inv_recognized_def Pause_def)
next
  case CallResume
  with assms(2) have "d' = Resume d" by simp
  then show ?thesis using inv_recognized_same[OF Resume_effect(2,7) assms(1)] by simp
next
  case (WaitEnter event)
  with assms show ?thesis by (auto simp: inv_recognized_def dest!: Wait_enter_effect(2))
next
  case WaitIter
  with assms(2) have w: "Wait_iter d = Inr d'" by simp
  show ?thesis
    by (rule inv_recognized_same[OF Wait_iter_effect(4)[OF w] Wait_iter_effect(6)[OF w] assms(1)])
next
  case (Step i)
  with assms(2) obtain c where "tasks d' = (tasks d)[i := (tasks d ! i)\<lparr>t_pc := c\<rparr>]"
    using executeListener_effect(2)[of i d d'] by auto
  then have m: "map args (tasks d') = map args (tasks d)" by simp
  have l: "listeners d' = listeners d"
    using assms(2) Step by (auto dest: executeListener_effect(5))
  show ?thesis by (rule inv_recognized_same[OF l m assms(1)])
qed

lemma run_recognized:
  "inv_recognized d \<Longrightarrow> \<forall>event. CallListener event None \<notin> set acts \<Longrightarrow>
   run acts d \<noteq> Inl (Panic ''Invalid listener'') \<and>
   (\<forall>d'. run acts d = Inr d' \<longrightarrow> inv_recognized d')"
proof (induction acts arbitrary: d)
  case Nil
  then show ?case by simp
next
  case (Cons a acts)
  show ?case
  proof (cases "step a d")
    case (Inl x)
    with step_no_invalid_listener[OF Cons.prems(1), of a] show ?thesis by simp
  next
    case (Inr x)
    have "inv_recognized x"
      using Cons.prems inv_recognized_step[OF Cons.prems(1) Inr] by auto
    from Cons.IH[OF this] Cons.prems(2) Inr show ?thesis by simp
  qed
qed

text \<open>
  C9, as the code has it. A non-nil \<open>Listener\<close> and any \<open>ListenerFunc\<close> are stored with a
  recognised dynamic type. On every schedule from a new dispatcher whose calls of \<open>Listener\<close>
  all pass a non-nil value, no goroutine reaches the panic of the type switch, and in every
  state reached each registered value and each value handed to a goroutine is recognised.
\<close>

theorem registered_listeners_recognized:
  assumes "\<forall>event. CallListener event None \<notin> set acts"
  shows "recognized (of_Listener (Some c)) \<and> recognized (of_ListenerFunc f) \<and>
         run acts NewDispatcher \<noteq> Inl (Panic ''Invalid listener'') \<and>
         (\<forall>d. run acts NewDispatcher = Inr d \<longrightarrow>
            (\<forall>k. \<forall>l\<in>set (at (listeners d) k). recognized l) \<and>
            (\<forall>t\<in>set (tasks d). recognized (t_l t)))"
proof -
  have "inv_recognized NewDispatcher"
    by (simp add: inv_recognized_def NewDispatcher_def at_def)
  from run_recognized[OF this assms] show ?thesis
    by (auto simp: inv_recognized_def of_ListenerFunc_def)
qed

theorem registered_listeners_recognized_witness:
  "(\<forall>event. CallListener event None \<notin>
      set [CallListener ''a'' (Some Signals), CallListenerFunc ''a'' None, CallDispatch ''a'' ev0,
           Step 0, Step 0, Step 1]) \<and>
   run [CallListener ''a'' (Some Signals), CallListenerFunc ''a'' None, CallDispatch ''a'' ev0,
        Step 0, Step 0, Step 1] NewDispatcher \<noteq> Inl (Panic ''Invalid listener'') \<and>
   run [CallListener ''a'' (Some Signals), CallListenerFunc ''a'' None, CallDispatch ''a'' ev0,
        Step 0, Step 0, Step 1] NewDispatcher =
     Inr (after [CallListener ''a'' (Some Signals), CallListenerFunc ''a'' None,
                 CallDispatch ''a'' ev0, Step 0, Step 0, Step 1]) \<and>
   list_all (\<lambda>t. recognized (t_l t))
     (tasks (after [CallListener ''a'' (Some Signals), CallListenerFunc ''a'' None,
                 CallDispatch ''a'' ev0, Step 0, Step 0, Step 1]))"
proof -
  let ?acts = "[CallListener ''a'' (Some Signals), CallListenerFunc ''a'' None,
                CallDispatch ''a'' ev0, Step 0, Step 0, Step 1]"
  have h: "\<forall>event. CallListener event None \<notin> set ?acts" by simp
  have r: "run ?acts NewDispatcher = Inr (after ?acts)" by (simp add: exec)
  from registered_listeners_recognized [OF h] h r show ?thesis
    unfolding list_all_iff by blast
qed

text \<open>
  C9, as the specification states it, fails: \<open>Listener\<close> accepts the nil interface value,
  stores it, and the goroutine dispatched for it panics in the default case of the type
  switch.
\<close>

theorem nil_Listener_panics:
  "run [CallListener ''a'' None, CallDispatch ''a'' ev0, Step 0, Step 0] NewDispatcher =
     Inl (Panic ''Invalid listener'')"
  by (simp add: exec)

section \<open>Wait\<close>

lemma complete_complete: "complete B (complete A t) = complete (A \<union> B) t"
  by (auto simp: complete_def)

lemma complete_empty [simp]: "complete {} t = t"
  by (simp add: complete_def)

lemma map_complete_empty [simp]: "map (complete {}) ts = ts"
  by (induction ts) simp_all

lemma t_q_complete [simp]: "t_q (complete C t) = t_q t"
  by (simp add: complete_def)

lemma receive_map:
  "distinct (map t_q ts) \<Longrightarrow> receive c ts = map (complete {c}) ts"
proof (induction ts)
  case (Cons t ts)
  show ?case
  proof (cases "t_pc t = SendQ \<and> t_q t = c")
    case True
    then have "\<forall>u\<in>set ts. t_q u \<noteq> c" using Cons.prems by (auto simp: image_iff)
    then have "map (complete {c}) ts = ts"
      by (intro map_idI) (simp add: complete_def)
    moreover have "complete {c} t = t\<lparr>t_pc := DeleteP\<rparr>"
      using True by (simp add: complete_def)
    ultimately show ?thesis using True by simp
  next
    case False
    with Cons show ?thesis by (auto simp: complete_def)
  qed
qed simp

lemma sending_complete:
  "sending c (map (complete C) ts) \<longleftrightarrow> c \<notin> C \<and> sending c ts"
  by (induction ts) (auto simp: sending_def complete_def)

lemma distinct_somes_nth:
  assumes "distinct (somes xs)" and "j < length xs" and "xs ! j = Some c"
  shows "c \<notin> set (somes (take j xs))"
proof -
  have "xs = take j xs @ Some c # drop (Suc j) xs"
    using assms(2,3) by (metis id_take_nth_drop)
  then have "somes xs = somes (take j xs) @ c # somes (drop (Suc j) xs)"
    by (metis somes_append somes.simps(3))
  with assms(1) show ?thesis by auto
qed

lemma Wait_iter_return:
  "waiting x = Some (event, i, n) \<Longrightarrow> \<not> i < n \<Longrightarrow>
   Wait_iter x = Inr (x\<lparr>mu := False, waiting := None\<rparr>)"
  by (simp add: Wait_iter_def)

lemma Wait_iter_blocked:
  "waiting x = Some (event, i, n) \<Longrightarrow> i < n \<Longrightarrow> at (qchans x) event ! i = Some c \<Longrightarrow>
   \<not> sending c (tasks x) \<Longrightarrow> Wait_iter x = Inl Blocked"
  by (simp add: Wait_iter_def)

lemma Wait_iter_one:
  assumes "waiting x = Some (event, i, n)" and "i < n"
    and "distinct (map t_q (tasks x))"
    and "\<forall>c. at (qchans x) event ! i = Some c \<longrightarrow> sending c (tasks x)"
  shows "\<exists>y. Wait_iter x = Inr y \<and> waiting y = Some (event, Suc i, n) \<and>
           tasks y = map (complete (set (somes [at (qchans x) event ! i]))) (tasks x) \<and>
           (\<forall>e. at (qchans y) e =
              (if e = event then (at (qchans x) event)[i := None] else at (qchans x) e)) \<and>
           mu y = mu x \<and> pchans y = pchans x \<and> listeners y = listeners x \<and>
           paused y = paused x \<and> fresh y = fresh x"
proof (cases "at (qchans x) event ! i")
  case None
  then have "(at (qchans x) event)[i := None] = at (qchans x) event"
    by (metis list_update_id)
  with None assms(1,2) show ?thesis
    by (simp add: Wait_iter_def)
next
  case (Some c)
  with assms(4) have s: "sending c (tasks x)" by simp
  have r: "receive c (tasks x) = map (complete {c}) (tasks x)"
    using assms(3) by (rule receive_map)
  from Some s assms(1,2) r show ?thesis
    by (simp add: Wait_iter_def at_update)
qed

lemma Wait_iters:
  assumes "waiting x = Some (event, i, n)" and "n = length (at (qchans x) event)"
    and "i + k \<le> n"
    and "distinct (map t_q (tasks x))" and "distinct (somes (at (qchans x) event))"
    and "\<forall>j. i \<le> j \<and> j < i + k \<longrightarrow>
           (\<forall>c. at (qchans x) event ! j = Some c \<longrightarrow> sending c (tasks x))"
  shows "\<exists>y. run (replicate k WaitIter) x = Inr y \<and> waiting y = Some (event, i + k, n) \<and>
           tasks y = map (complete (set (somes (take k (drop i (at (qchans x) event)))))) (tasks x) \<and>
           (\<forall>e. at (qchans y) e =
              (if e = event
               then take i (at (qchans x) event) @ replicate k None @
                    drop (i + k) (at (qchans x) event)
               else at (qchans x) e)) \<and>
           mu y = mu x \<and> pchans y = pchans x \<and> listeners y = listeners x \<and>
           paused y = paused x \<and> fresh y = fresh x"
  using assms
proof (induction k arbitrary: x i)
  case 0
  then show ?case by simp
next
  case (Suc k)
  let ?gs = "at (qchans x) event"
  have i: "i < n" "i < length ?gs" using Suc.prems(2,3) by auto
  have s0: "\<forall>c. ?gs ! i = Some c \<longrightarrow> sending c (tasks x)"
    using Suc.prems(6) by auto
  from Wait_iter_one[OF Suc.prems(1) i(1) Suc.prems(4) s0] obtain x1 where x1:
    "Wait_iter x = Inr x1" "waiting x1 = Some (event, Suc i, n)"
    "tasks x1 = map (complete (set (somes [?gs ! i]))) (tasks x)"
    "\<forall>e. at (qchans x1) e = (if e = event then ?gs[i := None] else at (qchans x) e)"
    "mu x1 = mu x" "pchans x1 = pchans x" "listeners x1 = listeners x"
    "paused x1 = paused x" "fresh x1 = fresh x"
    by blast
  have g1: "at (qchans x1) event = ?gs[i := None]" using x1(4) by simp
  have a2: "n = length (at (qchans x1) event)" using Suc.prems(2) g1 by simp
  have a3: "Suc i + k \<le> n" using Suc.prems(3) by simp
  have a4: "distinct (map t_q (tasks x1))"
    using Suc.prems(4) unfolding x1(3) by (simp add: comp_def)
  have a5: "distinct (somes (at (qchans x1) event))"
    unfolding g1 using Suc.prems(5) by (rule distinct_somes_update)
  have a6: "\<forall>j. Suc i \<le> j \<and> j < Suc i + k \<longrightarrow>
           (\<forall>c. at (qchans x1) event ! j = Some c \<longrightarrow> sending c (tasks x1))"
  proof (intro allI impI)
    fix j c assume j: "Suc i \<le> j \<and> j < Suc i + k" and c: "at (qchans x1) event ! j = Some c"
    have jl: "j < length ?gs" using j Suc.prems(2,3) by simp
    have gj: "?gs ! j = Some c" using c j unfolding g1 by simp
    have "i \<le> j \<and> j < i + Suc k" using j by simp
    with Suc.prems(6) gj have sc: "sending c (tasks x)" by blast
    have "c \<notin> set (somes (take j ?gs))"
      using Suc.prems(5) jl gj by (rule distinct_somes_nth)
    moreover have "?gs ! i \<in> set (take j ?gs)"
      using j i(2) jl by (metis Suc_le_lessD in_set_conv_nth length_take min_less_iff_conj nth_take)
    ultimately have "c \<notin> set (somes [?gs ! i])"
      by (cases "?gs ! i") (auto simp: set_somes)
    with sc show "sending c (tasks x1)"
      unfolding x1(3) by (simp add: sending_complete)
  qed
  from Suc.IH[OF x1(2) a2 a3 a4 a5 a6] obtain y where y:
    "run (replicate k WaitIter) x1 = Inr y" "waiting y = Some (event, Suc i + k, n)"
    "tasks y = map (complete (set (somes (take k (drop (Suc i) (at (qchans x1) event)))))) (tasks x1)"
    "\<forall>e. at (qchans y) e =
              (if e = event
               then take (Suc i) (at (qchans x1) event) @ replicate k None @
                    drop (Suc i + k) (at (qchans x1) event)
               else at (qchans x1) e)"
    "mu y = mu x1" "pchans y = pchans x1" "listeners y = listeners x1"
    "paused y = paused x1" "fresh y = fresh x1"
    by blast
  have r: "run (replicate (Suc k) WaitIter) x = Inr y"
    using x1(1) y(1) by simp
  have d1: "drop (Suc i) (?gs[i := None]) = drop (Suc i) ?gs" by simp
  have tk: "take (Suc k) (drop i ?gs) = ?gs ! i # take k (drop (Suc i) ?gs)"
    using i(2) by (simp add: Cons_nth_drop_Suc[symmetric])
  have t: "tasks y = map (complete (set (somes (take (Suc k) (drop i ?gs))))) (tasks x)"
    unfolding y(3) x1(3) g1 d1 tk
    by (cases "?gs ! i") (simp_all add: complete_complete comp_def)
  have q: "\<forall>e. at (qchans y) e =
              (if e = event
               then take i ?gs @ replicate (Suc k) None @ drop (i + Suc k) ?gs
               else at (qchans x) e)"
  proof
    fix e
    show "at (qchans y) e =
              (if e = event
               then take i ?gs @ replicate (Suc k) None @ drop (i + Suc k) ?gs
               else at (qchans x) e)"
    proof (cases "e = event")
      case True
      have "take (Suc i) (?gs[i := None]) = take i ?gs @ [None]"
        using i(2) by (simp add: take_Suc_conv_app_nth)
      moreover have "drop (Suc i + k) (?gs[i := None]) = drop (i + Suc k) ?gs" by simp
      ultimately show ?thesis using True y(4) g1 by simp
    next
      case False
      then show ?thesis using y(4) x1(4) by simp
    qed
  qed
  from r y(2) t q y(5-9) x1(5-9) show ?case by simp
qed

lemma skip_iters:
  "waiting x = Some (event, i, n) \<Longrightarrow> i + k \<le> n \<Longrightarrow>
   \<forall>j. i \<le> j \<and> j < i + k \<longrightarrow> at (qchans x) event ! j = None \<Longrightarrow>
   run (replicate k WaitIter) x = Inr (x\<lparr>waiting := Some (event, i + k, n)\<rparr>)"
proof (induction k arbitrary: x i)
  case 0
  then show ?case by simp
next
  case (Suc k)
  let ?x1 = "x\<lparr>waiting := Some (event, Suc i, n)\<rparr>"
  have "at (qchans x) event ! i = None" using Suc.prems(3) by simp
  then have w: "Wait_iter x = Inr ?x1"
    using Suc.prems(1,2) by (simp add: Wait_iter_def)
  have "run (replicate k WaitIter) ?x1 = Inr (?x1\<lparr>waiting := Some (event, Suc i + k, n)\<rparr>)"
    using Suc.prems(2,3) by (intro Suc.IH) simp_all
  with w show ?case by simp
qed

lemma Wait_noop:
  assumes "\<not> mu x" and "waiting x = None" and "\<forall>j<length (at (qchans x) event). at (qchans x) event ! j = None"
  shows "run (WaitEnter event # replicate (Suc (length (at (qchans x) event))) WaitIter) x = Inr x"
proof -
  let ?n = "length (at (qchans x) event)"
  let ?x0 = "x\<lparr>mu := True, waiting := Some (event, 0, ?n)\<rparr>"
  have e: "Wait_enter event x = Inr ?x0" using assms(1) by (simp add: Wait_enter_def)
  have "run (replicate ?n WaitIter) ?x0 = Inr (?x0\<lparr>waiting := Some (event, 0 + ?n, ?n)\<rparr>)"
    using assms(3) by (intro skip_iters) simp_all
  then have k: "run (replicate ?n WaitIter) ?x0 = Inr (x\<lparr>mu := True, waiting := Some (event, ?n, ?n)\<rparr>)"
    by simp
  have l: "Wait_iter (x\<lparr>mu := True, waiting := Some (event, ?n, ?n)\<rparr>) = Inr x"
    using assms(1,2) by (cases x) (simp add: Wait_iter_def)
  have rs: "replicate (Suc ?n) WaitIter = replicate ?n WaitIter @ [WaitIter]"
    by (simp add: replicate_append_same)
  have "run (replicate (Suc ?n) WaitIter) ?x0 = Inr x"
    unfolding rs run_append k using l by simp
  with e show ?thesis by simp
qed

text \<open>
  C2. Take a state a schedule reaches from a new dispatcher, with the mutex free, and an
  event whose \<open>k\<close> first completion-gates are nil or have their goroutine standing in its
  send. Then \<open>Wait\<close> takes the mutex and runs \<open>k\<close> iterations: the \<open>k\<close> first entries of
  the sequence are nil afterwards and the rest is as before, so the gates are consumed in
  the order they were appended and the sequence keeps its length; the goroutines that were
  sending on a consumed gate have left their send; nil entries cost no receive. If the next
  gate is not nil and its goroutine is not sending, the next iteration blocks. If all gates
  were consumed, the next step leaves the loop, unlocks and returns, and a second \<open>Wait\<close> on
  the event from there runs through all entries and returns in the same state, whatever the
  goroutines do.
\<close>

theorem Wait_consumes_in_order:
  assumes "run acts NewDispatcher = Inr d" and "\<not> mu d"
    and "k \<le> length (at (qchans d) event)"
    and "\<forall>j<k. \<forall>c. at (qchans d) event ! j = Some c \<longrightarrow> sending c (tasks d)"
  shows "\<exists>d'. run (WaitEnter event # replicate k WaitIter) d = Inr d' \<and>
           mu d' \<and> waiting d' = Some (event, k, length (at (qchans d) event)) \<and>
           at (qchans d') event = replicate k None @ drop k (at (qchans d) event) \<and>
           tasks d' = map (complete (set (somes (take k (at (qchans d) event))))) (tasks d) \<and>
           (\<forall>c. k < length (at (qchans d) event) \<and> at (qchans d) event ! k = Some c \<and>
                \<not> sending c (tasks d) \<longrightarrow> Wait_iter d' = Inl Blocked) \<and>
           (k = length (at (qchans d) event) \<longrightarrow>
              (\<exists>d''. Wait_iter d' = Inr d'' \<and> \<not> mu d'' \<and> waiting d'' = None \<and>
                 at (qchans d'') event = replicate k None \<and> tasks d'' = tasks d' \<and>
                 run (WaitEnter event # replicate (Suc k) WaitIter) d'' = Inr d''))"
proof -
  let ?gs = "at (qchans d) event"
  let ?n = "length ?gs"
  let ?d0 = "d\<lparr>mu := True, waiting := Some (event, 0, ?n)\<rparr>"
  have dq: "distinct (map t_q (tasks d))"
    using reachable_inv(1)[OF assms(1)] by (simp add: inv_tasks_def)
  have ds: "distinct (somes ?gs)"
    using reachable_inv(3)[OF assms(1)] by (simp add: inv_qchans_def)
  have e: "Wait_enter event d = Inr ?d0" using assms(2) by (simp add: Wait_enter_def)
  have "\<exists>y. run (replicate k WaitIter) ?d0 = Inr y \<and> waiting y = Some (event, 0 + k, ?n) \<and>
           tasks y = map (complete (set (somes (take k (drop 0 (at (qchans ?d0) event)))))) (tasks ?d0) \<and>
           (\<forall>e. at (qchans y) e =
              (if e = event
               then take 0 (at (qchans ?d0) event) @ replicate k None @
                    drop (0 + k) (at (qchans ?d0) event)
               else at (qchans ?d0) e)) \<and>
           mu y = mu ?d0 \<and> pchans y = pchans ?d0 \<and> listeners y = listeners ?d0 \<and>
           paused y = paused ?d0 \<and> fresh y = fresh ?d0"
    using assms(3,4) dq ds by (intro Wait_iters) simp_all
  then obtain y where y: "run (replicate k WaitIter) ?d0 = Inr y"
    "waiting y = Some (event, k, ?n)"
    "tasks y = map (complete (set (somes (take k ?gs)))) (tasks d)"
    "at (qchans y) event = replicate k None @ drop k ?gs" "mu y"
    by auto
  have r: "run (WaitEnter event # replicate k WaitIter) d = Inr y"
    using e y(1) by simp
  have b: "Wait_iter y = Inl Blocked"
    if "k < ?n \<and> ?gs ! k = Some c \<and> \<not> sending c (tasks d)" for c
  proof -
    have "at (qchans y) event ! k = Some c"
      using that unfolding y(4) by (simp add: nth_append)
    moreover have "\<not> sending c (tasks y)"
      using that unfolding y(3) by (simp add: sending_complete)
    ultimately show ?thesis
      using y(2) that by (intro Wait_iter_blocked[of y event k ?n c]) simp_all
  qed
  have f: "\<exists>d''. Wait_iter y = Inr d'' \<and> \<not> mu d'' \<and> waiting d'' = None \<and>
                 at (qchans d'') event = replicate k None \<and> tasks d'' = tasks y \<and>
                 run (WaitEnter event # replicate (Suc k) WaitIter) d'' = Inr d''"
    if k: "k = ?n"
  proof -
    let ?z = "y\<lparr>mu := False, waiting := None\<rparr>"
    have w: "Wait_iter y = Inr ?z"
      using y(2) k by (intro Wait_iter_return[of y event k ?n]) simp_all
    have qy: "at (qchans y) event = replicate k None"
      using y(4) k by simp
    have q: "at (qchans ?z) event = replicate k None"
      using qy by simp
    have "run (WaitEnter event # replicate (Suc (length (at (qchans ?z) event))) WaitIter) ?z = Inr ?z"
      by (rule Wait_noop) (simp_all add: qy)
    then have "run (WaitEnter event # replicate (Suc k) WaitIter) ?z = Inr ?z"
      by (simp add: qy)
    with w q show ?thesis by (intro exI[of _ ?z]) simp
  qed
  from r y(2-5) b f show ?thesis by blast
qed

theorem Wait_consumes_in_order_witness:
  "run [CallListenerFunc ''a'' (Some Signals), CallListenerFunc ''a'' (Some Silent),
        CallDispatch ''a'' ev0, Step 0, Step 0] NewDispatcher =
     Inr (after [CallListenerFunc ''a'' (Some Signals), CallListenerFunc ''a'' (Some Silent),
        CallDispatch ''a'' ev0, Step 0, Step 0]) \<and>
   \<not> mu (after [CallListenerFunc ''a'' (Some Signals), CallListenerFunc ''a'' (Some Silent),
        CallDispatch ''a'' ev0, Step 0, Step 0]) \<and>
   at (qchans (after [CallListenerFunc ''a'' (Some Signals), CallListenerFunc ''a'' (Some Silent),
        CallDispatch ''a'' ev0, Step 0, Step 0])) ''a'' = [Some 1, Some 3] \<and>
   sending 1 (tasks (after [CallListenerFunc ''a'' (Some Signals), CallListenerFunc ''a'' (Some Silent),
        CallDispatch ''a'' ev0, Step 0, Step 0])) \<and>
   \<not> sending 3 (tasks (after [CallListenerFunc ''a'' (Some Signals), CallListenerFunc ''a'' (Some Silent),
        CallDispatch ''a'' ev0, Step 0, Step 0])) \<and>
   (\<exists>d'. run [WaitEnter ''a'', WaitIter]
           (after [CallListenerFunc ''a'' (Some Signals), CallListenerFunc ''a'' (Some Silent),
              CallDispatch ''a'' ev0, Step 0, Step 0]) = Inr d' \<and>
         at (qchans d') ''a'' = [None, Some 3] \<and>
         map t_pc (tasks d') = [DeleteP, PauseCheck] \<and>
         Wait_iter d' = Inl Blocked) \<and>
   run [CallListenerFunc ''a'' (Some Signals), CallDispatch ''a'' ev0, Step 0, Step 0] NewDispatcher =
     Inr (after [CallListenerFunc ''a'' (Some Signals), CallDispatch ''a'' ev0, Step 0, Step 0]) \<and>
   at (qchans (after [CallListenerFunc ''a'' (Some Signals), CallDispatch ''a'' ev0, Step 0, Step 0]))
      ''a'' = [Some 1] \<and>
   (\<exists>d''. run [WaitEnter ''a'', WaitIter, WaitIter]
            (after [CallListenerFunc ''a'' (Some Signals), CallDispatch ''a'' ev0, Step 0, Step 0]) =
              Inr d'' \<and>
          \<not> mu d'' \<and> at (qchans d'') ''a'' = [None] \<and>
          run [WaitEnter ''a'', WaitIter, WaitIter] d'' = Inr d'')"
proof -
  let ?a = "after [CallListenerFunc ''a'' (Some Signals), CallListenerFunc ''a'' (Some Silent),
        CallDispatch ''a'' ev0, Step 0, Step 0]"
  let ?b = "after [CallListenerFunc ''a'' (Some Signals), CallDispatch ''a'' ev0, Step 0, Step 0]"
  have r: "run [CallListenerFunc ''a'' (Some Signals), CallListenerFunc ''a'' (Some Silent),
        CallDispatch ''a'' ev0, Step 0, Step 0] NewDispatcher = Inr ?a"
    by (simp add: exec)
  have u: "\<not> mu ?a" by (simp add: exec)
  have q: "at (qchans ?a) ''a'' = [Some 1, Some 3]" by (simp add: exec)
  have s: "sending 1 (tasks ?a)" "\<not> sending 3 (tasks ?a)" by (simp_all add: exec)
  have k: "1 \<le> length (at (qchans ?a) ''a'')" by (simp add: q)
  have h: "\<forall>j<1. \<forall>c. at (qchans ?a) ''a'' ! j = Some c \<longrightarrow> sending c (tasks ?a)"
    using s(1) by (simp add: q)
  from Wait_consumes_in_order [OF r u k h] obtain d' where d':
    "run (WaitEnter ''a'' # replicate 1 WaitIter) ?a = Inr d'"
    "at (qchans d') ''a'' = replicate 1 None @ drop 1 (at (qchans ?a) ''a'')"
    "tasks d' = map (complete (set (somes (take 1 (at (qchans ?a) ''a''))))) (tasks ?a)"
    "\<forall>c. 1 < length (at (qchans ?a) ''a'') \<and> at (qchans ?a) ''a'' ! 1 = Some c \<and>
                \<not> sending c (tasks ?a) \<longrightarrow> Wait_iter d' = Inl Blocked"
    by blast
  have 1: "run [WaitEnter ''a'', WaitIter] ?a = Inr d'" using d'(1) by simp
  have 2: "at (qchans d') ''a'' = [None, Some 3]" using d'(2) by (simp add: q)
  have "map t_pc (tasks d') = map (t_pc \<circ> complete {1}) (tasks ?a)"
    unfolding d'(3) q by simp
  also have "\<dots> = [DeleteP, PauseCheck]"
    by (simp add: exec complete_def)
  finally have 3: "map t_pc (tasks d') = [DeleteP, PauseCheck]" .
  have 4: "Wait_iter d' = Inl Blocked" using d'(4) s(2) by (simp add: q)
  have A: "\<exists>d'. run [WaitEnter ''a'', WaitIter] ?a = Inr d' \<and>
         at (qchans d') ''a'' = [None, Some 3] \<and>
         map t_pc (tasks d') = [DeleteP, PauseCheck] \<and>
         Wait_iter d' = Inl Blocked"
    using 1 2 3 4 by (intro exI[of _ d']) simp
  have rb: "run [CallListenerFunc ''a'' (Some Signals), CallDispatch ''a'' ev0, Step 0, Step 0]
              NewDispatcher = Inr ?b"
    by (simp add: exec)
  have ub: "\<not> mu ?b" by (simp add: exec)
  have qb: "at (qchans ?b) ''a'' = [Some 1]" by (simp add: exec)
  have sb: "sending 1 (tasks ?b)" by (simp add: exec)
  have kb: "1 \<le> length (at (qchans ?b) ''a'')" by (simp add: qb)
  have hb: "\<forall>j<1. \<forall>c. at (qchans ?b) ''a'' ! j = Some c \<longrightarrow> sending c (tasks ?b)"
    using sb by (simp add: qb)
  from Wait_consumes_in_order [OF rb ub kb hb] qb obtain e' e'' where e:
    "run (WaitEnter ''a'' # replicate 1 WaitIter) ?b = Inr e'"
    "Wait_iter e' = Inr e''" "\<not> mu e''" "at (qchans e'') ''a'' = replicate 1 None"
    "run (WaitEnter ''a'' # replicate (Suc 1) WaitIter) e'' = Inr e''"
    by auto
  have 5: "run [WaitEnter ''a'', WaitIter, WaitIter] ?b = Inr e''"
    using e(1,2) by (auto split: sum.splits)
  have 6: "run [WaitEnter ''a'', WaitIter, WaitIter] e'' = Inr e''"
    using e(5) by (simp add: numeral_2_eq_2)
  have B: "\<exists>d''. run [WaitEnter ''a'', WaitIter, WaitIter] ?b = Inr d'' \<and>
          \<not> mu d'' \<and> at (qchans d'') ''a'' = [None] \<and>
          run [WaitEnter ''a'', WaitIter, WaitIter] d'' = Inr d''"
    using 5 6 e(3,4) by (intro exI[of _ e'']) simp
  show ?thesis
    by (intro conjI) (rule r u q s A rb qb B)+
qed

end
